theory Spec2Isabelle
  imports Complex_Main "HOL-Library.Word"
begin

section \<open>Numbers and points\<close>

text \<open>
  The layout code computes in \<open>qreal\<close> (an IEEE double). The model keeps the special
  values of IEEE arithmetic (both infinities and not-a-number), because a division whose
  divisor is zero does not fault in the source: it yields one of them. Finite values are
  exact rationals: rounding, overflow and the sign of zero are not modelled.
\<close>

datatype qreal = Fin rat | PInf | NInf | NaN

fun isFinite :: "qreal \<Rightarrow> bool" where
  "isFinite (Fin _) = True"
| "isFinite _ = False"

fun qadd :: "qreal \<Rightarrow> qreal \<Rightarrow> qreal" where
  "qadd (Fin a) (Fin b) = Fin (a + b)"
| "qadd NaN _ = NaN"
| "qadd _ NaN = NaN"
| "qadd PInf NInf = NaN"
| "qadd NInf PInf = NaN"
| "qadd PInf _ = PInf"
| "qadd _ PInf = PInf"
| "qadd NInf _ = NInf"
| "qadd _ NInf = NInf"

fun qneg :: "qreal \<Rightarrow> qreal" where
  "qneg (Fin a) = Fin (- a)"
| "qneg PInf = NInf"
| "qneg NInf = PInf"
| "qneg NaN = NaN"

fun qsign :: "qreal \<Rightarrow> int" where
  "qsign (Fin a) = (if 0 < a then 1 else if a < 0 then - 1 else 0)"
| "qsign PInf = 1"
| "qsign NInf = - 1"
| "qsign NaN = 0"

definition infOfSign :: "int \<Rightarrow> qreal" where
  "infOfSign s = (if 0 < s then PInf else if s < 0 then NInf else NaN)"

fun qmul :: "qreal \<Rightarrow> qreal \<Rightarrow> qreal" where
  "qmul (Fin a) (Fin b) = Fin (a * b)"
| "qmul NaN _ = NaN"
| "qmul _ NaN = NaN"
| "qmul a b = infOfSign (qsign a * qsign b)"

fun qdiv :: "qreal \<Rightarrow> qreal \<Rightarrow> qreal" where
  "qdiv (Fin a) (Fin b) = (if b = 0 then infOfSign (qsign (Fin a)) else Fin (a / b))"
| "qdiv NaN _ = NaN"
| "qdiv _ NaN = NaN"
| "qdiv (Fin a) _ = Fin 0"
| "qdiv a (Fin b) = (if b < 0 then qneg a else a)"
| "qdiv _ _ = NaN"

fun qless :: "qreal \<Rightarrow> qreal \<Rightarrow> bool" where
  "qless (Fin a) (Fin b) = (a < b)"
| "qless NaN _ = False"
| "qless _ NaN = False"
| "qless NInf NInf = False"
| "qless NInf _ = True"
| "qless _ NInf = False"
| "qless PInf _ = False"
| "qless _ PInf = True"

instantiation qreal :: "{zero, one, plus, minus, uminus, times, inverse, ord}"
begin

definition zero_qreal :: qreal where "zero_qreal = Fin 0"

definition one_qreal :: qreal where "one_qreal = Fin 1"

definition plus_qreal :: "qreal \<Rightarrow> qreal \<Rightarrow> qreal" where "plus_qreal a b = qadd a b"

definition uminus_qreal :: "qreal \<Rightarrow> qreal" where "uminus_qreal a = qneg a"

definition minus_qreal :: "qreal \<Rightarrow> qreal \<Rightarrow> qreal" where "minus_qreal a b = qadd a (qneg b)"

definition times_qreal :: "qreal \<Rightarrow> qreal \<Rightarrow> qreal" where "times_qreal a b = qmul a b"

definition divide_qreal :: "qreal \<Rightarrow> qreal \<Rightarrow> qreal" where "divide_qreal a b = qdiv a b"

definition inverse_qreal :: "qreal \<Rightarrow> qreal" where "inverse_qreal a = qdiv (Fin 1) a"

definition less_qreal :: "qreal \<Rightarrow> qreal \<Rightarrow> bool" where "less_qreal a b = qless a b"

definition less_eq_qreal :: "qreal \<Rightarrow> qreal \<Rightarrow> bool" where
  "less_eq_qreal a b = (qless a b \<or> (a = b \<and> a \<noteq> NaN))"

instance ..

end

text \<open>Qt's \<open>qMin\<close> and \<open>qMax\<close>: \<open>(a < b) ? a : b\<close> and \<open>(a < b) ? b : a\<close>.\<close>

definition qMin :: "qreal \<Rightarrow> qreal \<Rightarrow> qreal" where
  "qMin a b = (if a < b then a else b)"

definition qMax :: "qreal \<Rightarrow> qreal \<Rightarrow> qreal" where
  "qMax a b = (if a < b then b else a)"

text \<open>
  C's \<open>fmod\<close>: the remainder of the division truncated toward zero, with the sign of
  the dividend; not-a-number when the divisor is zero or the dividend infinite.
\<close>

definition truncToZero :: "rat \<Rightarrow> int" where
  "truncToZero r = (if 0 \<le> r then \<lfloor>r\<rfloor> else \<lceil>r\<rceil>)"

fun fmod :: "qreal \<Rightarrow> qreal \<Rightarrow> qreal" where
  "fmod (Fin a) (Fin b) = (if b = 0 then NaN else Fin (a - b * of_int (truncToZero (a / b))))"
| "fmod NaN _ = NaN"
| "fmod _ NaN = NaN"
| "fmod (Fin a) _ = Fin a"
| "fmod _ _ = NaN"

record QPointF =
  ptx :: qreal
  pty :: qreal

definition QPointF0 :: QPointF where
  "QPointF0 = \<lparr>ptx = 0, pty = 0\<rparr>"

definition padd :: "QPointF \<Rightarrow> QPointF \<Rightarrow> QPointF" where
  "padd p q = \<lparr>ptx = ptx p + ptx q, pty = pty p + pty q\<rparr>"

definition psub :: "QPointF \<Rightarrow> QPointF \<Rightarrow> QPointF" where
  "psub p q = \<lparr>ptx = ptx p - ptx q, pty = pty p - pty q\<rparr>"

section \<open>Data model\<close>

type_synonym QChar = "16 word"

definition QChar_Space :: QChar where
  "QChar_Space = 0x20"

definition QChar_SoftHyphen :: QChar where
  "QChar_SoftHyphen = 0xAD"

datatype TextAnchor = AnchorStart | AnchorMiddle | AnchorEnd

datatype Direction = DirectionLeftToRight | DirectionRightToLeft

datatype BreakType = NoBreak | SoftBreak | HardBreak

text \<open>The classes libunibreak writes for each code unit (\<open>linebreak.h\<close>).\<close>

datatype LineBreakClass =
  LINEBREAK_MUSTBREAK | LINEBREAK_ALLOWBREAK | LINEBREAK_NOBREAK
  | LINEBREAK_INSIDEACHAR | LINEBREAK_INDETERMINATE

text \<open>
  \<open>KoSvgText::CharTransformation\<close>: the optional per-character positioning of a node.
\<close>

record CharTransformation =
  xPos :: "qreal option"
  yPos :: "qreal option"
  dxPos :: "qreal option"
  dyPos :: "qreal option"
  rotateT :: "qreal option"

definition CharTransformation0 :: CharTransformation where
  "CharTransformation0 = \<lparr>xPos = None, yPos = None, dxPos = None, dyPos = None, rotateT = None\<rparr>"

definition startsNewChunk :: "CharTransformation \<Rightarrow> bool" where
  "startsNewChunk t = (xPos t \<noteq> None \<or> yPos t \<noteq> None)"

text \<open>
  \<open>CharacterResult\<close>, with the fields the passes below read or write. The glyph payload,
  the ink box, the font metrics and the caret data are left out: no pass modelled here
  branches on them.
\<close>

record CharacterResult =
  finalPosition :: QPointF
  cssPosition :: QPointF
  advance :: QPointF
  addressable :: bool
  hidden :: bool
  middle :: bool
  anchored_chunk :: bool
  textLengthApplied :: bool
  visualIndex :: int
  plaintTextIndex :: int
  breakType :: BreakType
  anchor :: TextAnchor
  direction :: Direction
  graphemeIndices :: "int list"

text \<open>
  Modelled from the spec: the declaration of \<open>CharacterResult\<close> (its default member
  values) is in \<open>KoSvgTextShape_p.h\<close>, which is not among the sources. The spec gives
  \<open>visualIndex == -1\<close> until shaping; a fresh entry takes part in layout, is neither
  hidden nor middle, starts no chunk and sits at the origin.
\<close>

definition CharacterResult0 :: CharacterResult where
  "CharacterResult0 = \<lparr>finalPosition = QPointF0, cssPosition = QPointF0, advance = QPointF0,
     addressable = True, hidden = False, middle = False, anchored_chunk = False,
     textLengthApplied = False, visualIndex = - 1, plaintTextIndex = - 1, breakType = NoBreak,
     anchor = AnchorStart, direction = DirectionLeftToRight, graphemeIndices = []\<rparr>"

section \<open>Text on path: \<open>characterResultOnPath\<close>\<close>

text \<open>
  Returns the arc-length position and the character (whose \<open>hidden\<close> flag the source
  sets through the reference).
\<close>

definition characterResultOnPath ::
  "CharacterResult \<Rightarrow> qreal \<Rightarrow> qreal \<Rightarrow> bool \<Rightarrow> bool \<Rightarrow> qreal \<times> CharacterResult" where
  "characterResultOnPath cr len offset isHorizontal isClosed =
    (let rtl = (direction cr = DirectionRightToLeft);
         mid = (if isHorizontal
                then ptx (finalPosition cr) + (ptx (advance cr) * Fin (1/2)) + offset
                else pty (finalPosition cr) + (pty (advance cr) * Fin (1/2)) + offset)
     in if isClosed then
          let cr1 =
            (if (anchor cr = AnchorStart \<and> \<not> rtl) \<or> (anchor cr = AnchorEnd \<and> rtl) then
               (if mid - offset < 0 \<or> len < mid - offset then cr\<lparr>hidden := True\<rparr> else cr)
             else if (anchor cr = AnchorEnd \<and> \<not> rtl) \<or> (anchor cr = AnchorStart \<and> rtl) then
               (if mid - offset < - len \<or> 0 < mid - offset then cr\<lparr>hidden := True\<rparr> else cr)
             else
               (if mid - offset < - (len * Fin (1/2)) \<or> len * Fin (1/2) < mid - offset
                then cr\<lparr>hidden := True\<rparr> else cr));
              mid1 = (if mid < 0 then mid + len else mid)
          in (fmod mid1 len, cr1)
        else
          (mid, if mid < 0 \<or> len < mid then cr\<lparr>hidden := True\<rparr> else cr))"

section \<open>Hard breaks and the text given to the shaper\<close>

text \<open>
  Lines 211 to 215 of \<open>relayout\<close>: every code unit whose class is a mandatory break is
  overwritten with a space. \<open>lineBreaks\<close> was allocated with \<open>text.size()\<close> entries.
\<close>

definition replaceHardBreaks :: "LineBreakClass list \<Rightarrow> QChar list \<Rightarrow> QChar list" where
  "replaceHardBreaks lineBreaks text =
     fold (\<lambda>i t. if lineBreaks ! i = LINEBREAK_MUSTBREAK then t[i := QChar_Space] else t)
       [0..<length text] text"

section \<open>The text tree\<close>

datatype LengthAdjust = LengthAdjustSpacing | LengthAdjustSpacingAndGlyphs

text \<open>
  \<open>KoSvgTextContentElement\<close>, with the members the passes below use. \<open>numCharsAll\<close> is
  what \<open>numChars(element, true)\<close> returns for the node (its own code units and those of
  its descendants); that helper is declared in \<open>KoSvgTextShape_p.h\<close>, which is not among
  the sources, so its value is part of the node. \<open>textPath\<close> tells whether the node
  refers to a path. A \<open>QPainterPath\<close> is the list of what was added to it.
\<close>

record ElementData =
  localTransformations :: "CharTransformation list"
  textPath :: bool
  numCharsAll :: nat
  textLengthIsAuto :: bool
  textLengthCustomValue :: qreal
  lengthAdjust :: LengthAdjust
  associatedOutline :: "(QPointF \<times> QPointF) list"
  textDecorations :: "(nat \<times> (QPointF \<times> QPointF) list) list"

datatype KoSvgTextContentElement = Element ElementData "KoSvgTextContentElement list"

fun elementData :: "KoSvgTextContentElement \<Rightarrow> ElementData" where
  "elementData (Element d cs) = d"

fun childElements :: "KoSvgTextContentElement \<Rightarrow> KoSvgTextContentElement list" where
  "childElements (Element d cs) = cs"

datatype LayoutError = OutOfBounds | EmptyContainer

section \<open>Resolving transforms: \<open>resolveTransforms\<close>\<close>

text \<open>
  Modelled from the spec: \<open>CharTransformation::mergeInParentTransformation\<close> is declared
  outside the sources. The spec has the absolute position come from the node; what the
  node leaves unset is taken from the parent-resolved transform. The resolver below takes
  the merge as a parameter, and this one is used only to run it on concrete trees.
\<close>

definition mergeInParentTransformation :: "CharTransformation \<Rightarrow> CharTransformation \<Rightarrow> CharTransformation" where
  "mergeInParentTransformation t parent =
     \<lparr>xPos = (if xPos t = None then xPos parent else xPos t),
      yPos = (if yPos t = None then yPos parent else yPos t),
      dxPos = (if dxPos t = None then dxPos parent else dxPos t),
      dyPos = (if dyPos t = None then dyPos parent else dyPos t),
      rotateT = (if rotateT t = None then rotateT parent else rotateT t)\<rparr>"

definition isBidiControl :: "QChar \<Rightarrow> bool" where
  "isBidiControl c = ((8234 \<le> unat c \<and> unat c \<le> 8238) \<or> (8294 \<le> unat c \<and> unat c \<le> 8297))"

text \<open>
  The state the resolver threads through the recursion by reference: the character
  results, the resolved transforms and \<open>currentIndex\<close>.
\<close>

record ResolveState =
  rsResult :: "CharacterResult list"
  rsResolved :: "CharTransformation list"
  rsCurrentIndex :: nat

text \<open>
  The first loop of a node without a path: one step for index \<open>k\<close>, with \<open>i\<close> the number
  of local transforms used so far. Indices at or past \<open>text.size()\<close> are skipped by the
  source; \<open>result\<close>, \<open>resolved\<close> and \<open>collapsedChars\<close> all have \<open>text.size()\<close> entries.
\<close>

definition resolveLocalStep ::
  "(CharTransformation \<Rightarrow> CharTransformation \<Rightarrow> CharTransformation) \<Rightarrow> QChar list \<Rightarrow> bool \<Rightarrow>
   bool list \<Rightarrow> CharTransformation list \<Rightarrow> nat \<Rightarrow>
   (CharacterResult list \<times> CharTransformation list \<times> nat) \<Rightarrow>
   (CharacterResult list \<times> CharTransformation list \<times> nat)" where
  "resolveLocalStep mergeIn text wrapped collapsedChars local k st =
     (case st of (result, resolved, i) \<Rightarrow>
        if length text \<le> k then (result, resolved, i)
        else if collapsedChars ! k \<or> (isBidiControl (text ! k) \<and> \<not> wrapped) \<or> text ! k = QChar_SoftHyphen
        then (result[k := (result ! k)\<lparr>addressable := False\<rparr>], resolved, i)
        else if i < length local
        then (result, resolved[k := mergeIn (local ! i) (resolved ! k)], i + 1)
        else if 0 < k \<and> rotateT (resolved ! (k - 1)) \<noteq> None
        then (result, resolved[k := (resolved ! k)\<lparr>rotateT := rotateT (resolved ! (k - 1))\<rparr>], i)
        else (result, resolved, i))"

text \<open>
  The last loop of a node with a path, from \<open>k\<close> up to \<open>j\<close>, with the flag \<open>first\<close>.
  \<open>result[k]\<close> is read with no bound check.
\<close>

function resolvePathLoop ::
  "bool \<Rightarrow> CharacterResult list \<Rightarrow> nat \<Rightarrow> nat \<Rightarrow> bool \<Rightarrow> CharTransformation list \<Rightarrow>
   LayoutError + CharTransformation list" where
  "resolvePathLoop isHorizontal result k j first resolved =
     (if k < j then
        (if length result \<le> k then Inl OutOfBounds
         else if \<not> addressable (result ! k) then
           resolvePathLoop isHorizontal result (k + 1) j first resolved
         else
           let r1 = (if first then
                       (if isHorizontal then (resolved ! k)\<lparr>xPos := Some 0\<rparr>
                        else (resolved ! k)\<lparr>yPos := Some 0\<rparr>)
                     else resolved ! k);
               r2 = (if isHorizontal then r1\<lparr>yPos := None\<rparr> else r1\<lparr>xPos := None\<rparr>)
           in resolvePathLoop isHorizontal result (k + 1) j False (resolved[k := r2]))
      else Inr resolved)"
  by pat_completeness auto
termination
  by (relation "measure (\<lambda>(h, r, k, j, f, rs). j - k)") auto

declare resolvePathLoop.simps [simp del]

fun resolveTransforms ::
  "(CharTransformation \<Rightarrow> CharTransformation \<Rightarrow> CharTransformation) \<Rightarrow> QChar list \<Rightarrow> bool \<Rightarrow>
   bool list \<Rightarrow> KoSvgTextContentElement \<Rightarrow> bool \<Rightarrow> bool \<Rightarrow> ResolveState \<Rightarrow>
   LayoutError + ResolveState"
and resolveTransformsChildren ::
  "(CharTransformation \<Rightarrow> CharTransformation \<Rightarrow> CharTransformation) \<Rightarrow> QChar list \<Rightarrow> bool \<Rightarrow>
   bool list \<Rightarrow> KoSvgTextContentElement list \<Rightarrow> bool \<Rightarrow> ResolveState \<Rightarrow>
   LayoutError + ResolveState" where
  "resolveTransforms mergeIn text isHorizontal collapsedChars (Element d cs) wrapped textInPath st =
     (let index = rsCurrentIndex st;
          j = index + numCharsAll d;
          st1 = (if textPath d then st
                 else (case fold (resolveLocalStep mergeIn text wrapped collapsedChars (localTransformations d))
                              [index..<j] (rsResult st, rsResolved st, 0) of
                         (result, resolved, i) \<Rightarrow> st\<lparr>rsResult := result, rsResolved := resolved\<rparr>))
      in case resolveTransformsChildren mergeIn text isHorizontal collapsedChars cs
                (textInPath \<or> textPath d) st1 of
           Inl e \<Rightarrow> Inl e
         | Inr st2 \<Rightarrow>
             (if textPath d then
                (case resolvePathLoop isHorizontal (rsResult st2) index j True (rsResolved st2) of
                   Inl e \<Rightarrow> Inl e
                 | Inr resolved \<Rightarrow> Inr (st2\<lparr>rsResolved := resolved, rsCurrentIndex := j\<rparr>))
              else Inr (st2\<lparr>rsCurrentIndex := j\<rparr>)))"
| "resolveTransformsChildren mergeIn text isHorizontal collapsedChars [] textInPath st = Inr st"
| "resolveTransformsChildren mergeIn text isHorizontal collapsedChars (c # cs) textInPath st =
     (case resolveTransforms mergeIn text isHorizontal collapsedChars c False textInPath st of
        Inl e \<Rightarrow> Inl e
      | Inr st1 \<Rightarrow> resolveTransformsChildren mergeIn text isHorizontal collapsedChars cs textInPath st1)"

section \<open>The shaping part of \<open>relayout\<close>\<close>

datatype TextWrap = Wrap | NoWrap

datatype WordBreak = WordBreakNormal | WordBreakKeepAll | WordBreakBreakAll

datatype LineBreakStrictness = LineBreakAuto | LineBreakLoose | LineBreakNormal | LineBreakStrict | LineBreakAnywhere

text \<open>
  A \<open>SubChunk\<close> as \<open>relayout\<close> reads it: its text, the map from new to old positions,
  the properties it inherited, and \<open>fontRunLengths\<close>, the \<open>lengths\<close> the font registry
  returns for the chunk (\<open>facesForCSSValues\<close>).
\<close>

record SubChunk =
  chunkText :: "QChar list"
  originalText :: "QChar list"
  newToOldPositions :: "(int \<times> int) list"
  firstTextInPath :: bool
  chunkAnchor :: TextAnchor
  chunkDirection :: Direction
  chunkWordBreak :: WordBreak
  fontRunLengths :: "int list"

record raqm_glyph_t =
  glyphIndex :: nat
  cluster :: nat

text \<open>
  What \<open>relayout\<close> obtains from outside this file: the sub-chunks of the tree, white-space
  collapsing, libunibreak's classes (one per code unit of the text it is given), Qt's
  \<open>QChar::isSpace\<close>, the shaper (whether it accepts the text, and the glyph array it
  returns for it, \<open>None\<close> for a null pointer) and \<open>loadGlyph\<close>, which returns its
  verdict with the character and the total advance it updates through references.
\<close>

record Externals =
  collectSubChunks :: "KoSvgTextContentElement \<Rightarrow> SubChunk list"
  collapseSpaces :: "QChar list \<Rightarrow> QChar list \<times> bool list"
  set_linebreaks :: "QChar list \<Rightarrow> nat \<Rightarrow> LineBreakClass"
  set_graphemebreaks :: "QChar list \<Rightarrow> nat \<Rightarrow> bool"
  isSpace :: "QChar \<Rightarrow> bool"
  mergeTransformation :: "CharTransformation \<Rightarrow> CharTransformation \<Rightarrow> CharTransformation"
  raqm_set_text_utf16 :: "QChar list \<Rightarrow> bool"
  raqm_get_glyphs :: "QChar list \<Rightarrow> raqm_glyph_t list option"
  loadGlyph :: "raqm_glyph_t \<Rightarrow> CharacterResult \<Rightarrow> QPointF \<Rightarrow> bool \<times> CharacterResult \<times> QPointF"

text \<open>Lines 160 to 173: the text, the plain text and the cluster map, chunk by chunk.\<close>

fun collectText ::
  "SubChunk list \<Rightarrow> QChar list \<Rightarrow> QChar list \<Rightarrow> (int \<times> int) list \<Rightarrow>
   QChar list \<times> QChar list \<times> (int \<times> int) list" where
  "collectText [] text plainText clusterToOriginalString = (text, plainText, clusterToOriginalString)"
| "collectText (chunk # chunks) text plainText clusterToOriginalString =
     collectText chunks (text @ chunkText chunk) (plainText @ originalText chunk)
       (clusterToOriginalString @
        map (\<lambda>pos. (if snd pos < 0 then - 1 else int (length text) + snd pos,
                     if fst pos < 0 then - 1 else int (length plainText) + fst pos))
          (newToOldPositions chunk))"

text \<open>Lines 216 to 225.\<close>

definition assignPlainTextIndices :: "(int \<times> int) list \<Rightarrow> CharacterResult list \<Rightarrow> CharacterResult list" where
  "assignPlainTextIndices clusterToOriginalString result =
     fold (\<lambda>mapping r.
             if fst mapping < 0 then r
             else if fst mapping < int (length r)
             then r[nat (fst mapping) := (r ! nat (fst mapping))\<lparr>plaintTextIndex := snd mapping\<rparr>]
             else r)
       clusterToOriginalString result"

text \<open>Lines 237 to 243.\<close>

definition initialResolvedTransforms :: "nat \<Rightarrow> CharTransformation list" where
  "initialResolvedTransforms n =
     (let resolvedTransforms = replicate n CharTransformation0
      in if resolvedTransforms \<noteq> []
         then resolvedTransforms[0 := (resolvedTransforms ! 0)\<lparr>xPos := Some 0, yPos := Some 0\<rparr>]
         else resolvedTransforms)"

text \<open>
  Lines 290 to 374, for the code unit \<open>start + i\<close> of a chunk: the anchor and direction
  of the chunk, the break type and the chunk start of a text path. The line-edge
  behaviour, the justification flags and the caret data are not modelled.
\<close>

definition chunkCharacter ::
  "TextWrap \<Rightarrow> LineBreakStrictness \<Rightarrow> LineBreakClass list \<Rightarrow> bool list \<Rightarrow> SubChunk \<Rightarrow>
   nat \<Rightarrow> nat \<Rightarrow> CharacterResult \<Rightarrow> CharacterResult" where
  "chunkCharacter wrap linebreakStrictness lineBreaks graphemeBreaks chunk idx i cr0 =
     (let cr1 = cr0\<lparr>anchor := chunkAnchor chunk, direction := chunkDirection chunk\<rparr>;
          cr2 = (if lineBreaks ! idx = LINEBREAK_MUSTBREAK then cr1\<lparr>breakType := HardBreak\<rparr>
                 else if lineBreaks ! idx = LINEBREAK_ALLOWBREAK \<and> wrap \<noteq> NoWrap
                 then cr1\<lparr>breakType := SoftBreak\<rparr>
                 else cr1);
          cr3 = (if (chunkWordBreak chunk = WordBreakBreakAll \<or> linebreakStrictness = LineBreakAnywhere)
                    \<and> wrap \<noteq> NoWrap \<and> graphemeBreaks ! idx \<and> breakType cr2 = NoBreak
                 then cr2\<lparr>breakType := SoftBreak\<rparr> else cr2)
      in if firstTextInPath chunk \<and> i = 0 then cr3\<lparr>anchored_chunk := True\<rparr> else cr3)"

text \<open>
  The character loop of one chunk, from \<open>i\<close> on. \<open>result[start + i]\<close> is read with no
  bound check; \<open>lineBreaks\<close> and \<open>graphemeBreaks\<close> have as many entries as \<open>result\<close>.
\<close>

function chunkCharacters ::
  "TextWrap \<Rightarrow> LineBreakStrictness \<Rightarrow> LineBreakClass list \<Rightarrow> bool list \<Rightarrow> SubChunk \<Rightarrow>
   int \<Rightarrow> nat \<Rightarrow> CharacterResult list \<Rightarrow> LayoutError + CharacterResult list" where
  "chunkCharacters wrap strictness lineBreaks graphemeBreaks chunk start i result =
     (if i < length (chunkText chunk) then
        (if start + int i < 0 \<or> int (length result) \<le> start + int i then Inl OutOfBounds
         else chunkCharacters wrap strictness lineBreaks graphemeBreaks chunk start (i + 1)
                (result[nat (start + int i) :=
                   chunkCharacter wrap strictness lineBreaks graphemeBreaks chunk (nat (start + int i)) i
                     (result ! nat (start + int i))]))
      else Inr result)"
  by pat_completeness auto
termination
  by (relation "measure (\<lambda>(w, s, lb, gb, c, st, i, r). length (chunkText c) - i)") auto

declare chunkCharacters.simps [simp del]

text \<open>
  Lines 415 to 451: each font run writes the metrics of the code units \<open>start\<close> to
  \<open>start + length\<close> (reading \<open>plainText.at(j)\<close> and \<open>result[j]\<close>) and then advances
  \<open>start\<close> by its length. Only the bounds and the new \<open>start\<close> are kept.
\<close>

fun fontRuns :: "nat \<Rightarrow> nat \<Rightarrow> int list \<Rightarrow> int \<Rightarrow> LayoutError + int" where
  "fontRuns resultSize plainSize [] start = Inr start"
| "fontRuns resultSize plainSize (len # lens) start =
     (if 0 < len \<and> (start < 0 \<or> int resultSize < start + len \<or> int plainSize < start + len)
      then Inl OutOfBounds
      else fontRuns resultSize plainSize lens (start + len))"

fun chunkLoop ::
  "TextWrap \<Rightarrow> LineBreakStrictness \<Rightarrow> LineBreakClass list \<Rightarrow> bool list \<Rightarrow> nat \<Rightarrow> SubChunk list \<Rightarrow>
   int \<Rightarrow> CharacterResult list \<Rightarrow> LayoutError + CharacterResult list" where
  "chunkLoop wrap strictness lineBreaks graphemeBreaks plainSize [] start result = Inr result"
| "chunkLoop wrap strictness lineBreaks graphemeBreaks plainSize (chunk # chunks) start result =
     (case chunkCharacters wrap strictness lineBreaks graphemeBreaks chunk start 0 result of
        Inl e \<Rightarrow> Inl e
      | Inr result1 \<Rightarrow>
          (case fontRuns (length result1) plainSize (fontRunLengths chunk) start of
             Inl e \<Rightarrow> Inl e
           | Inr start1 \<Rightarrow>
               chunkLoop wrap strictness lineBreaks graphemeBreaks plainSize chunks start1 result1))"

text \<open>Lines 455 to 458.\<close>

definition markFirstAnchored :: "CharacterResult list \<Rightarrow> CharacterResult list" where
  "markFirstAnchored result =
     (if result \<noteq> [] then result[0 := (result ! 0)\<lparr>anchored_chunk := True\<rparr>] else result)"

text \<open>
  Lines 479 to 531: the glyph loop, with \<open>i\<close> the index of the glyph. A glyph whose
  cluster is not addressable, or that \<open>loadGlyph\<close> rejects, leaves the entry as it was.
\<close>

fun glyphLoop ::
  "Externals \<Rightarrow> raqm_glyph_t list \<Rightarrow> nat \<Rightarrow> CharacterResult list \<Rightarrow> QPointF \<Rightarrow>
   LayoutError + (CharacterResult list \<times> QPointF)" where
  "glyphLoop ext [] i result totalAdvance = Inr (result, totalAdvance)"
| "glyphLoop ext (g # gs) i result totalAdvance =
     (if length result \<le> cluster g then Inl OutOfBounds
      else if \<not> addressable (result ! cluster g) then glyphLoop ext gs (i + 1) result totalAdvance
      else (case loadGlyph ext g (result ! cluster g) totalAdvance of
              (ok, charResult, totalAdvance1) \<Rightarrow>
                if \<not> ok then glyphLoop ext gs (i + 1) result totalAdvance1
                else glyphLoop ext gs (i + 1)
                       (result[cluster g := charResult\<lparr>visualIndex := int i, middle := False\<rparr>]) totalAdvance1))"

text \<open>
  Lines 536 to 572: one round of the loop that marks middle characters. The state is the
  array, \<open>firstCluster\<close> and \<open>graphemeBreakNext\<close>.
\<close>

definition markMiddleStep ::
  "Externals \<Rightarrow> QChar list \<Rightarrow> bool list \<Rightarrow> nat \<Rightarrow> (CharacterResult list \<times> int \<times> bool) \<Rightarrow>
   (CharacterResult list \<times> int \<times> bool)" where
  "markMiddleStep ext text graphemeBreaks i st =
     (case st of (result0, firstCluster, graphemeBreakNext) \<Rightarrow>
        let result = result0[i := (result0 ! i)\<lparr>middle := (visualIndex (result0 ! i) = - 1)\<rparr>]
        in if addressable (result ! i) \<and> \<not> middle (result ! i) then
             (let result1 =
                (if - 1 < plaintTextIndex (result ! i) \<and> - 1 < firstCluster
                 then result[nat firstCluster := (result ! nat firstCluster)
                        \<lparr>graphemeIndices := graphemeIndices (result ! nat firstCluster) @ [plaintTextIndex (result ! i)]\<rparr>]
                 else result)
              in (result1, int i, graphemeBreaks ! i))
           else
             (let fC = nat (max 0 firstCluster);
                  r1 = (if isSpace ext (text ! fC) = isSpace ext (text ! i)
                           \<and> breakType (result ! fC) \<noteq> HardBreak
                        then result[fC := (result ! fC)\<lparr>breakType := breakType (result ! i)\<rparr>]
                        else result);
                  r2 = (if graphemeBreakNext \<and> addressable (r1 ! i) \<and> - 1 < plaintTextIndex (r1 ! i)
                        then r1[fC := (r1 ! fC)\<lparr>graphemeIndices := graphemeIndices (r1 ! fC) @ [plaintTextIndex (r1 ! i)]\<rparr>]
                        else r1);
                  r3 = r2[i := (r2 ! i)\<lparr>cssPosition := padd (cssPosition (r2 ! fC)) (advance (r2 ! fC)),
                                         hidden := True\<rparr>]
              in (r3, firstCluster, graphemeBreaks ! i)))"

definition markMiddle ::
  "Externals \<Rightarrow> QChar list \<Rightarrow> bool list \<Rightarrow> CharacterResult list \<Rightarrow> CharacterResult list \<times> int \<times> bool" where
  "markMiddle ext text graphemeBreaks result =
     fold (markMiddleStep ext text graphemeBreaks) [0..<length result] (result, - 1, False)"

text \<open>
  Lines 573 to 608. \<open>result.at(fC)\<close> is read whatever the size of the array. The dummy
  is a fresh \<open>CharacterResult\<close> whose fields are then set; it is inserted at \<open>fC + 1\<close>,
  and an empty transform is inserted at the same index.
\<close>

definition insertAt :: "nat \<Rightarrow> 'a \<Rightarrow> 'a list \<Rightarrow> 'a list" where
  "insertAt i v xs = take i xs @ v # drop i xs"

definition dummyCharacter :: "bool \<Rightarrow> CharacterResult \<Rightarrow> CharacterResult" where
  "dummyCharacter isHorizontal hardbreak =
     (let dummy = CharacterResult0\<lparr>addressable := True,
                    visualIndex := visualIndex hardbreak + 1,
                    cssPosition := padd (cssPosition hardbreak) (advance hardbreak),
                    finalPosition := padd (cssPosition hardbreak) (advance hardbreak)\<rparr>;
          dummy1 = (if isHorizontal then dummy\<lparr>advance := (advance dummy)\<lparr>ptx := 0\<rparr>\<rparr>
                    else dummy\<lparr>advance := (advance dummy)\<lparr>pty := 0\<rparr>\<rparr>)
      in dummy1\<lparr>plaintTextIndex := last (graphemeIndices hardbreak), direction := direction hardbreak\<rparr>)"

definition finishShaping ::
  "bool \<Rightarrow> nat \<Rightarrow> (CharacterResult list \<times> int \<times> bool) \<Rightarrow> CharTransformation list \<Rightarrow>
   LayoutError + (CharacterResult list \<times> CharTransformation list \<times> int)" where
  "finishShaping isHorizontal plainSize st resolvedTransforms =
     (case st of (result0, firstCluster, graphemeBreakNext) \<Rightarrow>
        let fC = nat (max 0 firstCluster)
        in if length result0 \<le> fC then Inl OutOfBounds
           else
             let result = (if graphemeIndices (result0 ! fC) = [] \<or> graphemeBreakNext
                           then result0[fC := (result0 ! fC)
                                  \<lparr>graphemeIndices := graphemeIndices (result0 ! fC) @ [int plainSize]\<rparr>]
                           else result0)
             in if breakType (result ! fC) = HardBreak
                then Inr (insertAt (fC + 1) (dummyCharacter isHorizontal (result ! fC)) result,
                          insertAt (fC + 1) CharTransformation0 resolvedTransforms, int fC + 1)
                else Inr (result, resolvedTransforms, - 1))"

text \<open>
  The members of the shape that \<open>relayout\<close> clears on entry, and what it derives from
  the root properties before the first pass.
\<close>

record ShapeState =
  textData :: "KoSvgTextContentElement list"
  shapeResult :: "CharacterResult list"
  cursorPos :: "(int \<times> int \<times> int) list"
  logicalToVisualCursorPos :: "(int \<times> int) list"
  initialTextPosition :: QPointF

record RootSettings =
  settingsIsHorizontal :: bool
  settingsWrapped :: bool
  settingsWrap :: TextWrap
  settingsLineBreak :: LineBreakStrictness

fun clearAssociatedOutlines :: "KoSvgTextContentElement \<Rightarrow> KoSvgTextContentElement" where
  "clearAssociatedOutlines (Element d cs) =
     Element (d\<lparr>associatedOutline := [], textDecorations := []\<rparr>) (map clearAssociatedOutlines cs)"

text \<open>
  \<open>relayout\<close> up to line 608. It either returns early, leaving the members as cleared
  (\<open>Returned\<close>), or reaches the later passes with its local array, the resolved transforms
  and \<open>dummyIndex\<close> (\<open>Shaped\<close>); an access outside an array is an error.
\<close>

datatype RelayoutOutcome =
  Returned (returnedState: ShapeState)
  | Shaped (shapedState: ShapeState) (shapedResult: "CharacterResult list")
      (shapedTransforms: "CharTransformation list") (shapedDummyIndex: int)

definition collapsedText :: "Externals \<Rightarrow> KoSvgTextContentElement \<Rightarrow> QChar list" where
  "collapsedText ext rootElement =
     fst (collapseSpaces ext (fst (collectText (collectSubChunks ext rootElement) [] [] [])))"

definition lineBreaksOf :: "Externals \<Rightarrow> KoSvgTextContentElement \<Rightarrow> LineBreakClass list" where
  "lineBreaksOf ext rootElement =
     map (set_linebreaks ext (collapsedText ext rootElement)) [0..<length (collapsedText ext rootElement)]"

definition graphemeBreaksOf :: "Externals \<Rightarrow> KoSvgTextContentElement \<Rightarrow> bool list" where
  "graphemeBreaksOf ext rootElement =
     map (set_graphemebreaks ext (collapsedText ext rootElement)) [0..<length (collapsedText ext rootElement)]"

definition shaperText :: "Externals \<Rightarrow> KoSvgTextContentElement \<Rightarrow> QChar list" where
  "shaperText ext rootElement = replaceHardBreaks (lineBreaksOf ext rootElement) (collapsedText ext rootElement)"

definition relayout :: "Externals \<Rightarrow> RootSettings \<Rightarrow> ShapeState \<Rightarrow> LayoutError + RelayoutOutcome" where
  "relayout ext settings st =
     (let st1 = st\<lparr>textData := map clearAssociatedOutlines (textData st),
                    initialTextPosition := QPointF0, shapeResult := [], cursorPos := [],
                    logicalToVisualCursorPos := []\<rparr>
      in case textData st1 of
           [] \<Rightarrow> Inr (Returned st1)
         | rootElement # others \<Rightarrow>
             let textChunks = collectSubChunks ext rootElement;
                 collected = collectText textChunks [] [] [];
                 plainText = fst (snd collected);
                 clusterToOriginalString = snd (snd collected);
                 collapseChars = snd (collapseSpaces ext (fst collected));
                 text = shaperText ext rootElement;
                 result0 = assignPlainTextIndices clusterToOriginalString
                             (replicate (length (collapsedText ext rootElement)) CharacterResult0);
                 resolved0 = initialResolvedTransforms (length (collapsedText ext rootElement))
             in (case resolveTransforms (mergeTransformation ext) text (settingsIsHorizontal settings)
                       collapseChars rootElement (settingsWrapped settings) False
                       \<lparr>rsResult = result0, rsResolved = resolved0, rsCurrentIndex = 0\<rparr> of
                  Inl e \<Rightarrow> Inl e
                | Inr rs \<Rightarrow>
                    (case (if raqm_set_text_utf16 ext text
                           then chunkLoop (settingsWrap settings) (settingsLineBreak settings)
                                  (lineBreaksOf ext rootElement) (graphemeBreaksOf ext rootElement) (length plainText)
                                  textChunks 0 (rsResult rs)
                           else Inr (rsResult rs)) of
                       Inl e \<Rightarrow> Inl e
                     | Inr result1 \<Rightarrow>
                         (case raqm_get_glyphs ext text of
                            None \<Rightarrow> Inr (Returned st1)
                          | Some glyphs \<Rightarrow>
                              (case glyphLoop ext glyphs 0 (markFirstAnchored result1) QPointF0 of
                                 Inl e \<Rightarrow> Inl e
                               | Inr shaped \<Rightarrow>
                                   (case finishShaping (settingsIsHorizontal settings) (length plainText)
                                           (markMiddle ext text (graphemeBreaksOf ext rootElement) (fst shaped))
                                           (rsResolved rs) of
                                      Inl e \<Rightarrow> Inl e
                                    | Inr finished \<Rightarrow>
                                        Inr (Shaped st1 (fst finished) (fst (snd finished))
                                               (snd (snd finished)))))))))"

section \<open>Stretching to \<open>textLength\<close>: \<open>applyTextLength\<close>\<close>

text \<open>A \<open>QMap\<close> with integer keys: the entries in ascending key order.\<close>

fun qmapInsert :: "int \<Rightarrow> 'v \<Rightarrow> (int \<times> 'v) list \<Rightarrow> (int \<times> 'v) list" where
  "qmapInsert k v [] = [(k, v)]"
| "qmapInsert k v (e # m) =
     (if k < fst e then (k, v) # e # m
      else if k = fst e then (k, v) # m
      else e # qmapInsert k v m)"

definition axisPos :: "bool \<Rightarrow> CharacterResult \<Rightarrow> qreal" where
  "axisPos isHorizontal cr = (if isHorizontal then ptx (finalPosition cr) else pty (finalPosition cr))"

definition axisAdvance :: "bool \<Rightarrow> CharacterResult \<Rightarrow> qreal" where
  "axisAdvance isHorizontal cr = (if isHorizontal then ptx (advance cr) else pty (advance cr))"

text \<open>
  Lines 925 to 949: one round of the loop over \<open>k\<close> from \<open>i\<close>. The state is the map, the
  extent \<open>a\<close>, \<open>b\<close> and the count \<open>n\<close>.
\<close>

definition textLengthExtentStep ::
  "bool \<Rightarrow> CharacterResult list \<Rightarrow> nat \<Rightarrow> nat \<Rightarrow> ((int \<times> nat) list \<times> qreal \<times> qreal \<times> int) \<Rightarrow>
   ((int \<times> nat) list \<times> qreal \<times> qreal \<times> int)" where
  "textLengthExtentStep isHorizontal result i k st =
     (case st of (visualToLogical, a, b, n) \<Rightarrow>
        if addressable (result ! k) then
          (let pos = axisPos isHorizontal (result ! k);
               adv = axisAdvance isHorizontal (result ! k)
           in ((if - 1 < visualIndex (result ! k)
                then qmapInsert (visualIndex (result ! k)) k visualToLogical else visualToLogical),
               (if k = i then qMin pos (pos + adv) else qMin a (qMin pos (pos + adv))),
               (if k = i then qMax pos (pos + adv) else qMax b (qMax pos (pos + adv))),
               (if \<not> textLengthApplied (result ! k) then n + 1 else n)))
        else st)"

text \<open>
  Lines 961 to 984: the loop over the keys of the map, in ascending order. The state is
  the array, \<open>shift\<close> and \<open>secondTextLengthApplied\<close>. The outline and the ink box that
  the source scales with the advance are not modelled.
\<close>

definition scaleFor :: "qreal \<Rightarrow> qreal \<Rightarrow> qreal" where
  "scaleFor d adv = (if d \<noteq> 0 then (d / adv) + 1 else 1)"

definition stretchStep ::
  "bool \<Rightarrow> QPointF \<Rightarrow> int \<Rightarrow> (int \<times> nat) \<Rightarrow> (CharacterResult list \<times> QPointF \<times> bool) \<Rightarrow>
   (CharacterResult list \<times> QPointF \<times> bool)" where
  "stretchStep spacingAndGlyphs d lastKey e st =
     (case st of (result, shift, secondTextLengthApplied) \<Rightarrow>
        let cr = result ! snd e
        in if addressable cr then
             (let cr1 = cr\<lparr>finalPosition := padd (finalPosition cr) shift\<rparr>;
                  cr2 = (if spacingAndGlyphs
                         then cr1\<lparr>advance :=
                                \<lparr>ptx = ptx (advance cr1) * scaleFor (ptx d) (ptx (advance cr1)),
                                 pty = pty (advance cr1) * scaleFor (pty d) (pty (advance cr1))\<rparr>\<rparr>
                         else cr1);
                  lastOne = (if spacingAndGlyphs then False else fst e = lastKey);
                  shift1 = (if \<not> (textLengthApplied cr2 \<and> secondTextLengthApplied) \<and> \<not> lastOne
                            then padd shift d else shift)
              in (result[snd e := cr2\<lparr>textLengthApplied := True\<rparr>], shift1, textLengthApplied cr2))
           else (result, shift, secondTextLengthApplied))"

text \<open>Lines 992 to 997 and 999 to 1004: the characters after and before the node.\<close>

function collectForward :: "CharacterResult list \<Rightarrow> nat \<Rightarrow> (int \<times> nat) list \<Rightarrow> (int \<times> nat) list" where
  "collectForward result k m =
     (if k < length result then
        (if anchored_chunk (result ! k) then m
         else collectForward result (k + 1) (qmapInsert (visualIndex (result ! k)) k m))
      else m)"
  by pat_completeness auto
termination
  by (relation "measure (\<lambda>(r, k, m). length r - k)") auto

declare collectForward.simps [simp del]

fun collectBackward ::
  "CharacterResult list \<Rightarrow> nat \<Rightarrow> (int \<times> nat) list \<Rightarrow> LayoutError + (int \<times> nat) list" where
  "collectBackward result 0 m =
     (if length result \<le> 0 then Inl OutOfBounds
      else Inr (qmapInsert (visualIndex (result ! 0)) 0 m))"
| "collectBackward result (Suc k) m =
     (if length result \<le> Suc k then Inl OutOfBounds
      else if anchored_chunk (result ! Suc k)
      then Inr (qmapInsert (visualIndex (result ! Suc k)) (Suc k) m)
      else collectBackward result k (qmapInsert (visualIndex (result ! Suc k)) (Suc k) m))"

text \<open>
  The part of \<open>applyTextLength\<close> that runs for a node whose \<open>textLength\<close> is set, once its
  children are done: \<open>i\<close> and \<open>j\<close> bound its code units, \<open>resolvedChildren\<close> counts the
  children that had a \<open>textLength\<close> of their own. \<open>result.at(k)\<close> is read for every
  \<open>k\<close> from \<open>i\<close> to \<open>j\<close>, and \<open>keys().last()\<close> is taken of the map whatever its size.
\<close>

definition textLengthDelta :: "ElementData \<Rightarrow> qreal \<Rightarrow> qreal \<Rightarrow> int \<Rightarrow> qreal" where
  "textLengthDelta d a b n = (textLengthCustomValue d - (b - a)) / Fin (of_int n)"

definition applyTextLengthNode ::
  "bool \<Rightarrow> ElementData \<Rightarrow> nat \<Rightarrow> nat \<Rightarrow> int \<Rightarrow> CharacterResult list \<Rightarrow> LayoutError + CharacterResult list" where
  "applyTextLengthNode isHorizontal d i j resolvedChildren result =
     (if i < j \<and> length result < j then Inl OutOfBounds
      else
        (case fold (textLengthExtentStep isHorizontal result i) [i..<j] ([], 0, 0, 0) of
           (visualToLogical, a, b, n0) \<Rightarrow>
             let spacingAndGlyphs = (lengthAdjust d = LengthAdjustSpacingAndGlyphs);
                 n = (if spacingAndGlyphs then n0 + resolvedChildren else n0 + resolvedChildren - 1);
                 dq = textLengthDelta d a b n;
                 dp = (if isHorizontal then \<lparr>ptx = dq, pty = 0\<rparr> else \<lparr>ptx = 0, pty = dq\<rparr>)
             in if visualToLogical = [] then Inl EmptyContainer
                else
                  (case fold (stretchStep spacingAndGlyphs dp (fst (last visualToLogical)))
                          visualToLogical (result, QPointF0, False) of
                     (result1, shift, second) \<Rightarrow>
                       (case collectBackward result1 i (collectForward result1 j []) of
                          Inl e \<Rightarrow> Inl e
                        | Inr others \<Rightarrow>
                            Inr (fold (\<lambda>e r. if fst (last visualToLogical) < fst e
                                             then r[snd e := (r ! snd e)
                                                    \<lparr>finalPosition := padd (finalPosition (r ! snd e)) shift\<rparr>]
                                             else r)
                                   others result1)))))"

text \<open>
  \<open>applyTextLength\<close>: the children first, then the node. The state is the array,
  \<open>currentIndex\<close> and the caller's count of resolved descendants.
\<close>

fun applyTextLength ::
  "bool \<Rightarrow> KoSvgTextContentElement \<Rightarrow> (CharacterResult list \<times> nat \<times> int) \<Rightarrow>
   LayoutError + (CharacterResult list \<times> nat \<times> int)"
and applyTextLengthChildren ::
  "bool \<Rightarrow> KoSvgTextContentElement list \<Rightarrow> (CharacterResult list \<times> nat \<times> int) \<Rightarrow>
   LayoutError + (CharacterResult list \<times> nat \<times> int)" where
  "applyTextLength isHorizontal (Element d cs) st =
     (case st of (result, currentIndex, resolvedDescendentNodes) \<Rightarrow>
        let i = currentIndex; j = i + numCharsAll d
        in (case applyTextLengthChildren isHorizontal cs (result, currentIndex, 0) of
             Inl e \<Rightarrow> Inl e
           | Inr st1 \<Rightarrow>
               (case st1 of (result1, currentIndex1, resolvedChildren) \<Rightarrow>
                  if \<not> textLengthIsAuto d then
                    (case applyTextLengthNode isHorizontal d i j resolvedChildren result1 of
                       Inl e \<Rightarrow> Inl e
                     | Inr result2 \<Rightarrow> Inr (result2, j, resolvedDescendentNodes + 1))
                  else Inr (result1, j, resolvedDescendentNodes))))"
| "applyTextLengthChildren isHorizontal [] st = Inr st"
| "applyTextLengthChildren isHorizontal (c # cs) st =
     (case applyTextLength isHorizontal c st of
        Inl e \<Rightarrow> Inl e
      | Inr st1 \<Rightarrow> applyTextLengthChildren isHorizontal cs st1)"

section \<open>Anchoring: \<open>applyAnchoring\<close>\<close>

text \<open>
  The inner loop, from \<open>i\<close>: it skips characters that are not addressable, stops at an
  anchored chunk start after \<open>start\<close>, and returns the index it stopped at with the
  extent \<open>a\<close>, \<open>b\<close>.
\<close>

function anchorScan ::
  "CharacterResult list \<Rightarrow> bool \<Rightarrow> nat \<Rightarrow> nat \<Rightarrow> qreal \<Rightarrow> qreal \<Rightarrow> nat \<times> qreal \<times> qreal" where
  "anchorScan result isHorizontal start i a b =
     (if i < length result then
        (if \<not> addressable (result ! i) then anchorScan result isHorizontal start (i + 1) a b
         else if anchored_chunk (result ! i) \<and> start < i then (i, a, b)
         else
           let pos = axisPos isHorizontal (result ! i);
               adv = axisAdvance isHorizontal (result ! i)
           in if anchored_chunk (result ! i)
              then anchorScan result isHorizontal start (i + 1) (qMin pos (pos + adv)) (qMax pos (pos + adv))
              else anchorScan result isHorizontal start (i + 1)
                     (qMin a (qMin pos (pos + adv))) (qMax b (qMax pos (pos + adv))))
      else (i, a, b))"
  by pat_completeness auto
termination
  by (relation "measure (\<lambda>(r, h, s, i, a, b). length r - i)") auto

declare anchorScan.simps [simp del]

definition anchorShift :: "CharacterResult \<Rightarrow> bool \<Rightarrow> qreal \<Rightarrow> qreal \<Rightarrow> qreal" where
  "anchorShift cr isHorizontal a b =
     (let rtl = (direction cr = DirectionRightToLeft);
          shift = axisPos isHorizontal cr
      in if (anchor cr = AnchorStart \<and> \<not> rtl) \<or> (anchor cr = AnchorEnd \<and> rtl) then shift - a
         else if (anchor cr = AnchorEnd \<and> \<not> rtl) \<or> (anchor cr = AnchorStart \<and> rtl) then shift - b
         else shift - (a + b) * Fin (1/2))"

definition shiftChunk :: "QPointF \<Rightarrow> nat \<Rightarrow> nat \<Rightarrow> CharacterResult list \<Rightarrow> CharacterResult list" where
  "shiftChunk shiftP start i result =
     fold (\<lambda>j r. r[j := (r ! j)\<lparr>finalPosition := padd (finalPosition (r ! j)) shiftP\<rparr>])
       [start..<i] result"

lemma anchorScan_bounds:
  "i \<le> length result \<Longrightarrow>
   i \<le> fst (anchorScan result isHorizontal start i a b) \<and>
   fst (anchorScan result isHorizontal start i a b) \<le> length result"
proof (induction result isHorizontal start i a b rule: anchorScan.induct)
  case (1 result isHorizontal start i a b)
  show ?case
  proof (cases "i < length result")
    case True
    note IH = "1.IH"
    show ?thesis
    proof (cases "addressable (result ! i)")
      case False
      then show ?thesis using True IH(1) by (subst (1 2) anchorScan.simps) auto
    next
      case A: True
      show ?thesis
      proof (cases "anchored_chunk (result ! i) \<and> start < i")
        case True
        then show ?thesis using \<open>i < length result\<close> A by (subst (1 2) anchorScan.simps) auto
      next
        case F: False
        show ?thesis
        proof (cases "anchored_chunk (result ! i)")
          case True
          then show ?thesis using \<open>i < length result\<close> A F IH(2)[OF \<open>i < length result\<close> _ F refl refl True]
            by (subst (1 2) anchorScan.simps) (auto simp: Let_def)
        next
          case False
          then show ?thesis using \<open>i < length result\<close> A F IH(3)[OF \<open>i < length result\<close> _ F refl refl False]
            by (subst (1 2) anchorScan.simps) (auto simp: Let_def)
        qed
      qed
    qed
  next
    case False
    then show ?thesis using "1.prems" by (subst (1 2) anchorScan.simps) simp
  qed
qed

lemma anchorScan_progress:
  assumes "start < length result"
  shows "start < fst (anchorScan result isHorizontal start start a b)"
proof -
  have step: "Suc start \<le> fst (anchorScan result isHorizontal start (Suc start) a' b')" for a' b'
    using anchorScan_bounds [of "Suc start" result isHorizontal start a' b'] assms by simp
  show ?thesis
  proof (cases "addressable (result ! start)")
    case False
    then show ?thesis using assms step [of a b] by (subst anchorScan.simps) (simp add: Suc_le_eq)
  next
    case True
    show ?thesis
    proof (cases "anchored_chunk (result ! start)")
      case True
      then show ?thesis
        using assms \<open>addressable (result ! start)\<close>
          step [of "qMin (axisPos isHorizontal (result ! start)) (axisPos isHorizontal (result ! start) + axisAdvance isHorizontal (result ! start))"
                   "qMax (axisPos isHorizontal (result ! start)) (axisPos isHorizontal (result ! start) + axisAdvance isHorizontal (result ! start))"]
        by (subst anchorScan.simps) (simp add: Suc_le_eq Let_def)
    next
      case False
      then show ?thesis
        using assms \<open>addressable (result ! start)\<close>
          step [of "qMin a (qMin (axisPos isHorizontal (result ! start)) (axisPos isHorizontal (result ! start) + axisAdvance isHorizontal (result ! start)))"
                   "qMax b (qMax (axisPos isHorizontal (result ! start)) (axisPos isHorizontal (result ! start) + axisAdvance isHorizontal (result ! start)))"]
        by (subst anchorScan.simps) (simp add: Suc_le_eq Let_def)
    qed
  qed
qed

lemma length_shiftChunk [simp]: "length (shiftChunk shiftP start i result) = length result"
proof -
  have "length (fold (\<lambda>j r. r[j := (r ! j)\<lparr>finalPosition := padd (finalPosition (r ! j)) shiftP\<rparr>]) js r) = length r"
    for js and r :: "CharacterResult list"
    by (induction js arbitrary: r) simp_all
  then show ?thesis by (simp add: shiftChunk_def)
qed

text \<open>The outer loop of \<open>applyAnchoring\<close>, from \<open>start\<close>.\<close>

function applyAnchoringFrom :: "bool \<Rightarrow> nat \<Rightarrow> CharacterResult list \<Rightarrow> CharacterResult list" where
  "applyAnchoringFrom isHorizontal start result =
     (if start < length result then
        (let scan = anchorScan result isHorizontal start start 0 0;
             i = fst scan;
             shift = anchorShift (result ! start) isHorizontal (fst (snd scan)) (snd (snd scan));
             shiftP = (if isHorizontal then \<lparr>ptx = shift, pty = 0\<rparr> else \<lparr>ptx = 0, pty = shift\<rparr>)
         in applyAnchoringFrom isHorizontal i (shiftChunk shiftP start i result))
      else result)"
  by pat_completeness auto
termination
proof (relation "measure (\<lambda>(h, start, r). length r - start)", goal_cases)
  case 1
  show ?case by simp
next
  case (2 isHorizontal start result scan i shift shiftP)
  then have "start < i"
    using anchorScan_progress [of start result isHorizontal 0 0] by simp
  then show ?case using 2 by simp
qed

declare applyAnchoringFrom.simps [simp del]

definition applyAnchoring :: "CharacterResult list \<Rightarrow> bool \<Rightarrow> CharacterResult list" where
  "applyAnchoring result isHorizontal = applyAnchoringFrom isHorizontal 0 result"


section \<open>Properties: the text given to the shaper\<close>

lemma replaceHardBreaks_fold_length:
  "length (fold (\<lambda>i t. if lineBreaks ! i = LINEBREAK_MUSTBREAK then t[i := QChar_Space] else t) js tx) = length tx"
  by (induction js arbitrary: tx) simp_all

lemma replaceHardBreaks_fold_nth:
  "k < length text \<Longrightarrow>
   fold (\<lambda>i t. if lineBreaks ! i = LINEBREAK_MUSTBREAK then t[i := QChar_Space] else t) [0..<n] text ! k =
     (if k < n \<and> lineBreaks ! k = LINEBREAK_MUSTBREAK then QChar_Space else text ! k)"
proof (induction n)
  case 0
  then show ?case by simp
next
  case (Suc n)
  then show ?case
    by (auto simp: replaceHardBreaks_fold_length nth_list_update less_Suc_eq)
qed

lemma length_replaceHardBreaks: "length (replaceHardBreaks lineBreaks text) = length text"
  by (simp add: replaceHardBreaks_def replaceHardBreaks_fold_length)

lemma replaceHardBreaks_map2:
  assumes "length lineBreaks = length tx"
  shows "replaceHardBreaks lineBreaks tx =
         map2 (\<lambda>c lb. if lb = LINEBREAK_MUSTBREAK then QChar_Space else c) tx lineBreaks"
proof (rule nth_equalityI)
  show "length (replaceHardBreaks lineBreaks tx) =
        length (map2 (\<lambda>c lb. if lb = LINEBREAK_MUSTBREAK then QChar_Space else c) tx lineBreaks)"
    using assms by (simp add: length_replaceHardBreaks)
next
  fix k
  assume "k < length (replaceHardBreaks lineBreaks tx)"
  then have k: "k < length tx" by (simp add: length_replaceHardBreaks)
  then show "replaceHardBreaks lineBreaks tx ! k =
        map2 (\<lambda>c lb. if lb = LINEBREAK_MUSTBREAK then QChar_Space else c) tx lineBreaks ! k"
    using assms by (simp add: replaceHardBreaks_def replaceHardBreaks_fold_nth)
qed

section \<open>Properties: text on a path\<close>

text \<open>
  Claim C6. On a closed path the source adds the length once to a negative position and
  then takes \<open>fmod\<close>, which keeps the sign of its first argument. A character at 0 with
  advance 2 on a closed path of length 10 whose start offset is -25 has its middle at
  -24; it is not hidden (its middle without the offset, 1, is on the path), and the
  position returned is -4, which is not in the range from 0 to the length.
\<close>

theorem characterResultOnPath_closed_below_minus_length:
  "characterResultOnPath
     (CharacterResult0\<lparr>finalPosition := \<lparr>ptx = Fin 0, pty = Fin 0\<rparr>, advance := \<lparr>ptx = Fin 2, pty = Fin 0\<rparr>\<rparr>)
     (Fin 10) (Fin (- 25)) True True
   = (Fin (- 4),
      CharacterResult0\<lparr>finalPosition := \<lparr>ptx = Fin 0, pty = Fin 0\<rparr>, advance := \<lparr>ptx = Fin 2, pty = Fin 0\<rparr>\<rparr>)"
  by code_simp

text \<open>
  On an open path, a character whose middle (the position the function returns) is
  before the start or after the end of the path is hidden.
\<close>

lemma characterResultOnPath_open_hidden:
  assumes "\<not> isClosed"
    and "fst (characterResultOnPath cr len offset isHorizontal isClosed) < 0
         \<or> len < fst (characterResultOnPath cr len offset isHorizontal isClosed)"
  shows "hidden (snd (characterResultOnPath cr len offset isHorizontal isClosed))"
  using assms by (auto simp: characterResultOnPath_def Let_def)

section \<open>Properties: transforms on a text path\<close>

text \<open>
  The cross-axis coordinate is \<open>y\<close> in horizontal and \<open>x\<close> in vertical writing; the
  coordinate along the axis is the other one.
\<close>

definition crossSuppressed :: "bool \<Rightarrow> CharTransformation \<Rightarrow> bool" where
  "crossSuppressed isHorizontal t = (if isHorizontal then yPos t = None else xPos t = None)"

definition alongZero :: "bool \<Rightarrow> CharTransformation \<Rightarrow> bool" where
  "alongZero isHorizontal t = (if isHorizontal then xPos t = Some 0 else yPos t = Some 0)"

text \<open>
  A tree to run the resolver on: a root with a child that refers to a path, whose only
  child sets \<open>x\<close> and \<open>y\<close> for its two characters.
\<close>

definition pathTree :: KoSvgTextContentElement where
  "pathTree =
     (let none = \<lparr>localTransformations = [], textPath = False, numCharsAll = 2, textLengthIsAuto = True,
                  textLengthCustomValue = 0, lengthAdjust = LengthAdjustSpacing,
                  associatedOutline = [], textDecorations = []\<rparr>
      in Element none
           [Element (none\<lparr>textPath := True\<rparr>)
              [Element (none\<lparr>localTransformations :=
                  [CharTransformation0\<lparr>xPos := Some (Fin 3), yPos := Some (Fin 4)\<rparr>,
                   CharTransformation0\<lparr>xPos := Some (Fin 5), yPos := Some (Fin 6)\<rparr>]\<rparr>) []]])"

definition pathNode :: KoSvgTextContentElement where
  "pathNode = hd (childElements pathTree)"

definition resolveStart :: ResolveState where
  "resolveStart = \<lparr>rsResult = replicate 2 CharacterResult0,
                    rsResolved = initialResolvedTransforms 2, rsCurrentIndex = 0\<rparr>"

definition pathNodeResolved :: ResolveState where
  "pathNodeResolved =
     projr (resolveTransforms mergeInParentTransformation [0x41, 0x42] True [False, False]
              pathNode False False resolveStart)"

lemma resolvePathLoop_props:
  assumes "resolvePathLoop h result k j first resolved = Inr resolved'"
    and "length resolved = length result"
  shows "length resolved' = length resolved
    \<and> (\<forall>m. m < k \<longrightarrow> resolved' ! m = resolved ! m)
    \<and> (\<forall>m. k \<le> m \<and> m < j \<and> addressable (result ! m) \<longrightarrow> crossSuppressed h (resolved' ! m))
    \<and> (first \<longrightarrow> (\<forall>m. k \<le> m \<and> m < j \<and> addressable (result ! m)
            \<and> (\<forall>m'. k \<le> m' \<and> m' < m \<longrightarrow> \<not> addressable (result ! m'))
          \<longrightarrow> alongZero h (resolved' ! m)))"
  using assms
proof (induction h result k j first resolved rule: resolvePathLoop.induct)
  case (1 h result k j first resolved)
  show ?case
  proof (cases "k < j")
    case False
    then show ?thesis using "1.prems" by (subst (asm) resolvePathLoop.simps) auto
  next
    case kj: True
    have inb: "k < length result"
      using "1.prems"(1) kj by (subst (asm) resolvePathLoop.simps) (auto split: if_splits)
    show ?thesis
    proof (cases "addressable (result ! k)")
      case False
      have rec: "resolvePathLoop h result (k + 1) j first resolved = Inr resolved'"
        using "1.prems"(1) kj inb False by (subst (asm) resolvePathLoop.simps) simp
      note IH = "1.IH"(1) [OF kj _ False rec "1.prems"(2)]
      have IH': "length resolved' = length resolved
        \<and> (\<forall>m. m < k + 1 \<longrightarrow> resolved' ! m = resolved ! m)
        \<and> (\<forall>m. k + 1 \<le> m \<and> m < j \<and> addressable (result ! m) \<longrightarrow> crossSuppressed h (resolved' ! m))
        \<and> (first \<longrightarrow> (\<forall>m. k + 1 \<le> m \<and> m < j \<and> addressable (result ! m)
            \<and> (\<forall>m'. k + 1 \<le> m' \<and> m' < m \<longrightarrow> \<not> addressable (result ! m'))
          \<longrightarrow> alongZero h (resolved' ! m)))"
        using IH inb by simp
      show ?thesis
      proof (intro conjI allI impI)
        show "length resolved' = length resolved" using IH' by simp
      next
        fix m assume "m < k" then show "resolved' ! m = resolved ! m" using IH' by simp
      next
        fix m assume a: "k \<le> m \<and> m < j \<and> addressable (result ! m)"
        then have "k + 1 \<le> m" using False by (cases "m = k") auto
        then show "crossSuppressed h (resolved' ! m)" using IH' a by blast
      next
        fix m assume f: first
          and a: "k \<le> m \<and> m < j \<and> addressable (result ! m)
            \<and> (\<forall>m'. k \<le> m' \<and> m' < m \<longrightarrow> \<not> addressable (result ! m'))"
        then have "k + 1 \<le> m" using False by (cases "m = k") auto
        moreover have "\<forall>m'. k + 1 \<le> m' \<and> m' < m \<longrightarrow> \<not> addressable (result ! m')" using a by auto
        ultimately show "alongZero h (resolved' ! m)" using IH' a f by blast
      qed
    next
      case True
      define r1 where "r1 = (if first then
                       (if h then (resolved ! k)\<lparr>xPos := Some 0\<rparr>
                        else (resolved ! k)\<lparr>yPos := Some 0\<rparr>)
                     else resolved ! k)"
      define r2 where "r2 = (if h then r1\<lparr>yPos := None\<rparr> else r1\<lparr>xPos := None\<rparr>)"
      have rec: "resolvePathLoop h result (k + 1) j False (resolved[k := r2]) = Inr resolved'"
        using "1.prems"(1) kj inb True
        by (subst (asm) resolvePathLoop.simps) (cases h; cases first; simp add: Let_def r1_def r2_def)
      have len: "length (resolved[k := r2]) = length result" using "1.prems"(2) by simp
      note IH = "1.IH"(2) [OF kj _ _ r1_def r2_def rec len]
      have IH': "length resolved' = length resolved
        \<and> (\<forall>m. m < k + 1 \<longrightarrow> resolved' ! m = resolved[k := r2] ! m)
        \<and> (\<forall>m. k + 1 \<le> m \<and> m < j \<and> addressable (result ! m) \<longrightarrow> crossSuppressed h (resolved' ! m))"
        using IH inb True by simp
      have atk: "resolved' ! k = r2" using IH' inb "1.prems"(2) by simp
      have cs: "crossSuppressed h r2" by (simp add: r2_def crossSuppressed_def)
      have az: "first \<Longrightarrow> alongZero h r2" by (simp add: r2_def r1_def alongZero_def)
      show ?thesis
      proof (intro conjI allI impI)
        show "length resolved' = length resolved" using IH' by simp
      next
        fix m assume "m < k" then show "resolved' ! m = resolved ! m" using IH' by simp
      next
        fix m assume a: "k \<le> m \<and> m < j \<and> addressable (result ! m)"
        show "crossSuppressed h (resolved' ! m)"
        proof (cases "m = k")
          case True then show ?thesis using atk cs by simp
        next
          case False then show ?thesis using IH' a by auto
        qed
      next
        fix m assume f: first
          and a: "k \<le> m \<and> m < j \<and> addressable (result ! m)
            \<and> (\<forall>m'. k \<le> m' \<and> m' < m \<longrightarrow> \<not> addressable (result ! m'))"
        have "m = k"
        proof (rule ccontr)
          assume "m \<noteq> k"
          then have "k < m" using a by auto
          then show False using a True by auto
        qed
        then show "alongZero h (resolved' ! m)" using atk az f by simp
      qed
    qed
  qed
qed


lemma resolveLocalStep_lengths:
  assumes "resolveLocalStep mergeIn tx wrapped collapsedChars local k (result, resolved, i) = (result', resolved', i')"
  shows "length result' = length result \<and> length resolved' = length resolved"
  using assms by (auto simp: resolveLocalStep_def split: if_splits)

lemma resolveLocalFold_lengths:
  assumes "fold (resolveLocalStep mergeIn tx wrapped collapsedChars local) ks (result, resolved, i) = (result', resolved', i')"
  shows "length result' = length result \<and> length resolved' = length resolved"
  using assms
proof (induction ks arbitrary: result resolved i)
  case Nil
  then show ?case by simp
next
  case (Cons k ks)
  obtain r1 rs1 i1 where s: "resolveLocalStep mergeIn tx wrapped collapsedChars local k (result, resolved, i) = (r1, rs1, i1)"
    by (metis prod_cases3)
  from Cons.prems have "fold (resolveLocalStep mergeIn tx wrapped collapsedChars local) ks (r1, rs1, i1) = (result', resolved', i')"
    by (simp add: s)
  from Cons.IH [OF this] resolveLocalStep_lengths [OF s] show ?case by simp
qed

lemma resolveTransforms_lengths:
  "resolveTransforms mergeIn tx h coll e wrapped tip st = Inr st' \<Longrightarrow>
     length (rsResolved st) = length (rsResult st) \<Longrightarrow>
     length (rsResult st') = length (rsResult st) \<and> length (rsResolved st') = length (rsResolved st)"
  "resolveTransformsChildren mergeIn tx h coll es tip st = Inr st' \<Longrightarrow>
     length (rsResolved st) = length (rsResult st) \<Longrightarrow>
     length (rsResult st') = length (rsResult st) \<and> length (rsResolved st') = length (rsResolved st)"
proof (induction mergeIn tx h coll e wrapped tip st and mergeIn tx h coll es tip st
       arbitrary: st' and st' rule: resolveTransforms_resolveTransformsChildren.induct)
  case (1 mergeIn tx h coll d cs wrapped tip st)
  define index where "index = rsCurrentIndex st"
  define j where "j = index + numCharsAll d"
  define st1 where "st1 = (if textPath d then st
                 else (case fold (resolveLocalStep mergeIn tx wrapped coll (localTransformations d))
                              [index..<j] (rsResult st, rsResolved st, 0) of
                         (result, resolved, i) \<Rightarrow> st\<lparr>rsResult := result, rsResolved := resolved\<rparr>))"
  have l1: "length (rsResult st1) = length (rsResult st) \<and> length (rsResolved st1) = length (rsResolved st)"
  proof (cases "textPath d")
    case True then show ?thesis by (simp add: st1_def)
  next
    case False
    obtain r rs i where f: "fold (resolveLocalStep mergeIn tx wrapped coll (localTransformations d))
                              [index..<j] (rsResult st, rsResolved st, 0) = (r, rs, i)"
      by (metis prod_cases3)
    from resolveLocalFold_lengths [OF f] False show ?thesis by (simp add: st1_def f)
  qed
  have unfolded: "resolveTransforms mergeIn tx h coll (Element d cs) wrapped tip st =
      (case resolveTransformsChildren mergeIn tx h coll cs (tip \<or> textPath d) st1 of
           Inl e \<Rightarrow> Inl e
         | Inr st2 \<Rightarrow>
             (if textPath d then
                (case resolvePathLoop h (rsResult st2) index j True (rsResolved st2) of
                   Inl e \<Rightarrow> Inl e
                 | Inr resolved \<Rightarrow> Inr (st2\<lparr>rsResolved := resolved, rsCurrentIndex := j\<rparr>))
              else Inr (st2\<lparr>rsCurrentIndex := j\<rparr>)))"
    unfolding resolveTransforms.simps Let_def index_def j_def st1_def by (rule refl)
  have "\<exists>st2. resolveTransformsChildren mergeIn tx h coll cs (tip \<or> textPath d) st1 = Inr st2"
    using "1.prems"(1) unfolding unfolded
    by (cases "resolveTransformsChildren mergeIn tx h coll cs (tip \<or> textPath d) st1") simp_all
  then obtain st2 where
    ch: "resolveTransformsChildren mergeIn tx h coll cs (tip \<or> textPath d) st1 = Inr st2" by blast
  have l2: "length (rsResult st2) = length (rsResult st1) \<and> length (rsResolved st2) = length (rsResolved st1)"
    using "1.IH" [OF index_def j_def st1_def ch] l1 "1.prems"(2) by simp
  show ?case
  proof (cases "textPath d")
    case False
    then have "st' = st2\<lparr>rsCurrentIndex := j\<rparr>"
      using "1.prems"(1) ch unfolding unfolded by simp
    then show ?thesis using l1 l2 by simp
  next
    case True
    then have "\<exists>resolved. resolvePathLoop h (rsResult st2) index j True (rsResolved st2) = Inr resolved
        \<and> st' = st2\<lparr>rsResolved := resolved, rsCurrentIndex := j\<rparr>"
      using "1.prems"(1) ch unfolding unfolded
      by (cases "resolvePathLoop h (rsResult st2) index j True (rsResolved st2)") simp_all
    then obtain resolved where
      pl: "resolvePathLoop h (rsResult st2) index j True (rsResolved st2) = Inr resolved"
      and st': "st' = st2\<lparr>rsResolved := resolved, rsCurrentIndex := j\<rparr>" by blast
    have "length (rsResolved st2) = length (rsResult st2)" using l1 l2 "1.prems"(2) by simp
    from resolvePathLoop_props [OF pl this] st' l1 l2 show ?thesis by simp
  qed
next
  case (2 mergeIn tx h coll tip st)
  then show ?case by simp
next
  case (3 mergeIn tx h coll c cs tip st)
  from "3.prems"(1) obtain st1 where
    a: "resolveTransforms mergeIn tx h coll c False tip st = Inr st1"
    and b: "resolveTransformsChildren mergeIn tx h coll cs tip st1 = Inr st'"
    by (auto split: sum.splits)
  from "3.IH"(1) [OF a "3.prems"(2)] have l1: "length (rsResult st1) = length (rsResult st) \<and> length (rsResolved st1) = length (rsResolved st)" .
  then have "length (rsResolved st1) = length (rsResult st1)" using "3.prems"(2) by simp
  from "3.IH"(2) [OF a b this] l1 show ?case by simp
qed

text \<open>
  Claim C5, as the code has it. For a node that refers to a path, once the resolver has
  run on it, every addressable character among the node's code units has no
  cross-axis coordinate (\<open>y\<close> in horizontal writing, \<open>x\<close> in vertical writing), and the
  first addressable one has its coordinate along the axis set to zero.
\<close>

theorem resolveTransforms_on_text_path:
  assumes run: "resolveTransforms mergeIn tx isHorizontal collapsedChars (Element d cs) wrapped textInPath st = Inr st'"
    and path: "textPath d"
    and len: "length (rsResolved st) = length (rsResult st)"
  shows "\<forall>k. rsCurrentIndex st \<le> k \<and> k < rsCurrentIndex st + numCharsAll d \<and> addressable (rsResult st' ! k) \<longrightarrow>
           crossSuppressed isHorizontal (rsResolved st' ! k) \<and>
           ((\<forall>k'. rsCurrentIndex st \<le> k' \<and> k' < k \<longrightarrow> \<not> addressable (rsResult st' ! k')) \<longrightarrow>
              alongZero isHorizontal (rsResolved st' ! k))"
proof -
  have "\<exists>st2. resolveTransformsChildren mergeIn tx isHorizontal collapsedChars cs True st = Inr st2"
    using run path
    by (cases "resolveTransformsChildren mergeIn tx isHorizontal collapsedChars cs True st")
       (simp_all add: Let_def)
  then obtain st2 where
    ch: "resolveTransformsChildren mergeIn tx isHorizontal collapsedChars cs True st = Inr st2" by blast
  have "\<exists>resolved. resolvePathLoop isHorizontal (rsResult st2) (rsCurrentIndex st)
               (rsCurrentIndex st + numCharsAll d) True (rsResolved st2) = Inr resolved
      \<and> st' = st2\<lparr>rsResolved := resolved, rsCurrentIndex := rsCurrentIndex st + numCharsAll d\<rparr>"
    using run path ch
    by (cases "resolvePathLoop isHorizontal (rsResult st2) (rsCurrentIndex st)
               (rsCurrentIndex st + numCharsAll d) True (rsResolved st2)")
       (simp_all add: Let_def)
  then obtain resolved where
    pl: "resolvePathLoop isHorizontal (rsResult st2) (rsCurrentIndex st)
               (rsCurrentIndex st + numCharsAll d) True (rsResolved st2) = Inr resolved"
    and st': "st' = st2\<lparr>rsResolved := resolved, rsCurrentIndex := rsCurrentIndex st + numCharsAll d\<rparr>"
    by blast
  from resolveTransforms_lengths(2) [OF ch len] len
  have "length (rsResolved st2) = length (rsResult st2)" by simp
  from resolvePathLoop_props [OF pl this] st' show ?thesis by auto
qed

theorem resolveTransforms_on_text_path_witness:
  "resolveTransforms mergeInParentTransformation [0x41, 0x42] True [False, False]
     pathNode False False resolveStart = Inr pathNodeResolved
   \<and> addressable (rsResult pathNodeResolved ! 1)
   \<and> crossSuppressed True (rsResolved pathNodeResolved ! 1)
   \<and> alongZero True (rsResolved pathNodeResolved ! 0)"
proof -
  have run: "resolveTransforms mergeInParentTransformation [0x41, 0x42] True [False, False]
     (Element (elementData pathNode) (childElements pathNode)) False False resolveStart
       = Inr pathNodeResolved"
    by code_simp
  have path: "textPath (elementData pathNode)" by code_simp
  have len: "length (rsResolved resolveStart) = length (rsResult resolveStart)" by code_simp
  have a0: "addressable (rsResult pathNodeResolved ! 0)" by code_simp
  have a1: "addressable (rsResult pathNodeResolved ! 1)" by code_simp
  have n: "numCharsAll (elementData pathNode) = 2" by code_simp
  have i: "rsCurrentIndex resolveStart = 0" by code_simp
  note all = resolveTransforms_on_text_path [OF run path len]
  have "crossSuppressed True (rsResolved pathNodeResolved ! 1)"
    using all a1 n i by simp
  moreover have "alongZero True (rsResolved pathNodeResolved ! 0)"
    using all a0 n i by simp
  moreover have "resolveTransforms mergeInParentTransformation [0x41, 0x42] True [False, False]
     pathNode False False resolveStart = Inr pathNodeResolved"
    by code_simp
  ultimately show ?thesis using a1 by simp
qed

text \<open>
  The claim as stated has \<open>x\<close> suppressed in horizontal writing. On the tree above, in
  horizontal writing, the second character keeps the \<open>x\<close> its node sets (5) and loses
  its \<open>y\<close>; the first has \<open>x\<close> reset to zero.
\<close>

theorem resolveTransforms_keeps_x_when_horizontal:
  "map_sum id (\<lambda>s. (map addressable (rsResult s), map xPos (rsResolved s), map yPos (rsResolved s)))
     (resolveTransforms mergeInParentTransformation [0x41, 0x42] True [False, False] pathTree False False
        \<lparr>rsResult = replicate 2 CharacterResult0, rsResolved = initialResolvedTransforms 2, rsCurrentIndex = 0\<rparr>)
   = Inr ([True, True], [Some 0, Some (Fin 5)], [None, None])"
  by code_simp


section \<open>Properties: the shaped array\<close>

text \<open>
  The lengths of the font runs of a chunk come from the font registry, which is not among
  the sources. It splits the text of the chunk into runs, one per face: no run has a
  negative length and together they make up the text.
\<close>

definition fontRunsCoverText :: "SubChunk \<Rightarrow> bool" where
  "fontRunsCoverText c =
     ((\<forall>l\<in>set (fontRunLengths c). 0 \<le> l) \<and> sum_list (fontRunLengths c) = int (length (chunkText c)))"

text \<open>
  A character is visible when it is addressable and not middle. \<open>lastVisibleBefore rs m\<close>
  is the index of the last visible character among the first \<open>m\<close>, or -1.
  \<open>shapingFrame\<close> blanks the five fields the marking loop writes, so that two arrays with
  the same frame agree on every other field.
\<close>

definition visibleChar :: "CharacterResult \<Rightarrow> bool" where
  "visibleChar cr = (addressable cr \<and> \<not> middle cr)"

fun lastVisibleBefore :: "CharacterResult list \<Rightarrow> nat \<Rightarrow> int" where
  "lastVisibleBefore rs 0 = - 1"
| "lastVisibleBefore rs (Suc k) = (if visibleChar (rs ! k) then int k else lastVisibleBefore rs k)"

definition shapingFrame :: "CharacterResult \<Rightarrow> CharacterResult" where
  "shapingFrame cr = cr\<lparr>middle := False, hidden := False, cssPosition := QPointF0,
                         breakType := NoBreak, graphemeIndices := []\<rparr>"

lemma map_shapingFrame_update:
  assumes "shapingFrame v = shapingFrame (xs ! k)"
  shows "map shapingFrame (xs[k := v]) = map shapingFrame xs"
proof (cases "k < length xs")
  case True
  then show ?thesis using assms by (simp add: map_update list_update_same_conv)
next
  case False
  then have "length xs \<le> k" by simp
  then show ?thesis by (simp add: list_update_beyond)
qed

lemma markMiddleStep_frame:
  "map shapingFrame (fst (markMiddleStep ext tx gb i st)) = map shapingFrame (fst st)"
proof -
  obtain r fc g where st: "st = (r, fc, g)" by (metis prod_cases3)
  have upd: "map shapingFrame (xs[k := (xs ! k)\<lparr>middle := a\<rparr>]) = map shapingFrame xs"
            "map shapingFrame (xs[k := (xs ! k)\<lparr>breakType := b\<rparr>]) = map shapingFrame xs"
            "map shapingFrame (xs[k := (xs ! k)\<lparr>graphemeIndices := c\<rparr>]) = map shapingFrame xs"
            "map shapingFrame (xs[k := (xs ! k)\<lparr>cssPosition := d, hidden := e\<rparr>]) = map shapingFrame xs"
    for xs k a b c d e
    by (rule map_shapingFrame_update, simp add: shapingFrame_def)+
  show ?thesis
    unfolding st markMiddleStep_def by (simp add: Let_def upd)
qed


lemma length_markMiddleStep [simp]:
  "length (fst (markMiddleStep ext tx gb i st)) = length (fst st)"
  using arg_cong [OF markMiddleStep_frame [of ext tx gb i st], of length] by simp

lemma nth_update_keep:
  assumes "f v = f (xs ! j)"
  shows "f (xs[j := v] ! k) = f (xs ! k)"
proof (cases "j < length xs")
  case True
  then show ?thesis using assms by (cases "j = k") simp_all
next
  case False
  then have "length xs \<le> j" by simp
  then show ?thesis by (simp add: list_update_beyond)
qed

lemmas nth_update_keep_fields =
  nth_update_keep [where f = middle] nth_update_keep [where f = hidden]
  nth_update_keep [where f = cssPosition] nth_update_keep [where f = advance]
  nth_update_keep [where f = breakType] nth_update_keep [where f = addressable]
  nth_update_keep [where f = visualIndex]

lemma update_same_breakType: "xs[j := (xs ! j)\<lparr>breakType := breakType (xs ! j)\<rparr>] = xs"
  by simp

lemma update_same_graphemeIndices: "xs[j := (xs ! j)\<lparr>graphemeIndices := graphemeIndices (xs ! j)\<rparr>] = xs"
  by simp

lemma markMiddleStep_visible:
  assumes "addressable (r ! i) \<and> visualIndex (r ! i) \<noteq> - 1" and "i < length r"
  shows "\<exists>j gi. markMiddleStep ext tx gb i (r, fc, g) =
           ((r[i := (r ! i)\<lparr>middle := False\<rparr>])
              [j := ((r[i := (r ! i)\<lparr>middle := False\<rparr>]) ! j)\<lparr>graphemeIndices := gi\<rparr>],
            int i, gb ! i)"
proof -
  define R where "R = r[i := (r ! i)\<lparr>middle := False\<rparr>]"
  have Ri: "addressable (R ! i) \<and> \<not> middle (R ! i)" using assms by (simp add: R_def)
  have R': "r[i := (r ! i)\<lparr>middle := (visualIndex (r ! i) = - 1)\<rparr>] = R"
    using assms by (simp add: R_def)
  show ?thesis
  proof (cases "- 1 < plaintTextIndex (R ! i) \<and> - 1 < fc")
    case True
    then have "markMiddleStep ext tx gb i (r, fc, g) =
        (R[nat fc := (R ! nat fc)\<lparr>graphemeIndices := graphemeIndices (R ! nat fc) @ [plaintTextIndex (R ! i)]\<rparr>],
         int i, gb ! i)"
      using Ri unfolding markMiddleStep_def by (simp add: Let_def R')
    then show ?thesis unfolding R_def by blast
  next
    case False
    then have "markMiddleStep ext tx gb i (r, fc, g) = (R, int i, gb ! i)"
      using Ri unfolding markMiddleStep_def by (auto simp: Let_def R')
    then have "markMiddleStep ext tx gb i (r, fc, g) =
        (R[0 := (R ! 0)\<lparr>graphemeIndices := graphemeIndices (R ! 0)\<rparr>], int i, gb ! i)"
      by (simp only: update_same_graphemeIndices)
    then show ?thesis unfolding R_def by blast
  qed
qed

lemma markMiddleStep_invisible:
  assumes "\<not> (addressable (r ! i) \<and> visualIndex (r ! i) \<noteq> - 1)" and "i < length r"
  shows "\<exists>b gi R R1 R2.
           R = r[i := (r ! i)\<lparr>middle := (visualIndex (r ! i) = - 1)\<rparr>]
         \<and> R1 = R[nat (max 0 fc) := (R ! nat (max 0 fc))\<lparr>breakType := b\<rparr>]
         \<and> R2 = R1[nat (max 0 fc) := (R1 ! nat (max 0 fc))\<lparr>graphemeIndices := gi\<rparr>]
         \<and> markMiddleStep ext tx gb i (r, fc, g) =
             (R2[i := (R2 ! i)\<lparr>cssPosition := padd (cssPosition (R2 ! nat (max 0 fc))) (advance (R2 ! nat (max 0 fc))),
                                hidden := True\<rparr>], fc, gb ! i)"
proof -
  define R where "R = r[i := (r ! i)\<lparr>middle := (visualIndex (r ! i) = - 1)\<rparr>]"
  define fC where "fC = nat (max 0 fc)"
  define b where "b = (if isSpace ext (tx ! fC) = isSpace ext (tx ! i) \<and> breakType (R ! fC) \<noteq> HardBreak
                       then breakType (R ! i) else breakType (R ! fC))"
  define R1 where "R1 = R[fC := (R ! fC)\<lparr>breakType := b\<rparr>]"
  define gi where "gi = (if g \<and> addressable (R1 ! i) \<and> - 1 < plaintTextIndex (R1 ! i)
                         then graphemeIndices (R1 ! fC) @ [plaintTextIndex (R1 ! i)]
                         else graphemeIndices (R1 ! fC))"
  define R2 where "R2 = R1[fC := (R1 ! fC)\<lparr>graphemeIndices := gi\<rparr>]"
  have Ri: "\<not> (addressable (R ! i) \<and> \<not> middle (R ! i))" using assms by (auto simp: R_def)
  have r1: "(if isSpace ext (tx ! fC) = isSpace ext (tx ! i) \<and> breakType (R ! fC) \<noteq> HardBreak
             then R[fC := (R ! fC)\<lparr>breakType := breakType (R ! i)\<rparr>] else R) = R1"
  proof (cases "isSpace ext (tx ! fC) = isSpace ext (tx ! i) \<and> breakType (R ! fC) \<noteq> HardBreak")
    case True
    then show ?thesis by (simp add: R1_def b_def)
  next
    case False
    then have "b = breakType (R ! fC)" by (auto simp: b_def)
    then have "R1 = R" by (simp only: R1_def update_same_breakType)
    then show ?thesis using False by auto
  qed
  have r2: "(if g \<and> addressable (R1 ! i) \<and> - 1 < plaintTextIndex (R1 ! i)
             then R1[fC := (R1 ! fC)\<lparr>graphemeIndices := graphemeIndices (R1 ! fC) @ [plaintTextIndex (R1 ! i)]\<rparr>]
             else R1) = R2"
  proof (cases "g \<and> addressable (R1 ! i) \<and> - 1 < plaintTextIndex (R1 ! i)")
    case True
    then show ?thesis by (simp add: R2_def gi_def)
  next
    case False
    then have "gi = graphemeIndices (R1 ! fC)" by (auto simp: gi_def)
    then have "R2 = R1" by (simp only: R2_def update_same_graphemeIndices)
    then show ?thesis using False by auto
  qed
  have "markMiddleStep ext tx gb i (r, fc, g) =
             (R2[i := (R2 ! i)\<lparr>cssPosition := padd (cssPosition (R2 ! fC)) (advance (R2 ! fC)),
                                hidden := True\<rparr>], fc, gb ! i)"
    apply (simp only: markMiddleStep_def Let_def prod.case)
    apply (simp only: R_def [symmetric] fC_def [symmetric])
    apply (simp only: r1)
    apply (simp only: r2)
    using Ri apply auto
    done
  then show ?thesis unfolding fC_def using R_def R1_def R2_def fC_def by blast
qed


lemma markMiddleStep_fields:
  fixes ext :: Externals and tx :: "QChar list" and gb :: "bool list" and fc :: int and g :: bool
  assumes i: "i < length r" and k: "k < length r"
  defines "vis \<equiv> addressable (r ! i) \<and> visualIndex (r ! i) \<noteq> - 1"
  defines "out \<equiv> markMiddleStep ext tx gb i (r, fc, g)"
  shows "middle (fst out ! k) = (if k = i then visualIndex (r ! i) = - 1 else middle (r ! k))"
    and "hidden (fst out ! k) = (if k = i \<and> \<not> vis then True else hidden (r ! k))"
    and "cssPosition (fst out ! k) =
           (if k = i \<and> \<not> vis
            then padd (cssPosition (r ! nat (max 0 fc))) (advance (r ! nat (max 0 fc)))
            else cssPosition (r ! k))"
    and "fst (snd out) = (if vis then int i else fc)"
proof -
  have all: "middle (fst out ! k) = (if k = i then visualIndex (r ! i) = - 1 else middle (r ! k))
    \<and> hidden (fst out ! k) = (if k = i \<and> \<not> vis then True else hidden (r ! k))
    \<and> cssPosition (fst out ! k) =
           (if k = i \<and> \<not> vis
            then padd (cssPosition (r ! nat (max 0 fc))) (advance (r ! nat (max 0 fc)))
            else cssPosition (r ! k))
    \<and> fst (snd out) = (if vis then int i else fc)"
  proof (cases vis)
    case True
    then obtain j gi where o: "out =
           ((r[i := (r ! i)\<lparr>middle := False\<rparr>])
              [j := ((r[i := (r ! i)\<lparr>middle := False\<rparr>]) ! j)\<lparr>graphemeIndices := gi\<rparr>],
            int i, gb ! i)"
      using markMiddleStep_visible [where r = r and i = i and ext = ext and tx = tx and gb = gb and fc = fc and g = g] i
      unfolding vis_def out_def by blast
    show ?thesis
      using True i k unfolding o vis_def
      by (simp add: nth_update_keep_fields nth_list_update)
  next
    case False
    then obtain b gi R R1 R2 where
      R: "R = r[i := (r ! i)\<lparr>middle := (visualIndex (r ! i) = - 1)\<rparr>]"
      and R1: "R1 = R[nat (max 0 fc) := (R ! nat (max 0 fc))\<lparr>breakType := b\<rparr>]"
      and R2: "R2 = R1[nat (max 0 fc) := (R1 ! nat (max 0 fc))\<lparr>graphemeIndices := gi\<rparr>]"
      and o: "out =
             (R2[i := (R2 ! i)\<lparr>cssPosition := padd (cssPosition (R2 ! nat (max 0 fc))) (advance (R2 ! nat (max 0 fc))),
                                hidden := True\<rparr>], fc, gb ! i)"
      using markMiddleStep_invisible [where r = r and i = i and ext = ext and tx = tx and gb = gb and fc = fc and g = g] i
      unfolding vis_def out_def by blast
    have len: "length R2 = length r" by (simp add: R R1 R2)
    have f2: "middle (R2 ! n) = middle (R ! n)" "hidden (R2 ! n) = hidden (R ! n)"
      "cssPosition (R2 ! n) = cssPosition (R ! n)" "advance (R2 ! n) = advance (R ! n)" for n
      by (simp_all add: R1 R2 nth_update_keep_fields)
    have f0: "hidden (R ! n) = hidden (r ! n)" "cssPosition (R ! n) = cssPosition (r ! n)"
      "advance (R ! n) = advance (r ! n)" for n
      by (simp_all add: R nth_update_keep_fields)
    have m0: "middle (R ! n) = (if n = i then visualIndex (r ! i) = - 1 else middle (r ! n))"
      if "n < length r" for n
      using i that by (simp add: R nth_list_update)
    show ?thesis
      using False i k len unfolding o
      by (simp add: nth_list_update nth_update_keep_fields f2 f0 m0)
  qed
  show "middle (fst out ! k) = (if k = i then visualIndex (r ! i) = - 1 else middle (r ! k))"
    and "hidden (fst out ! k) = (if k = i \<and> \<not> vis then True else hidden (r ! k))"
    and "cssPosition (fst out ! k) =
           (if k = i \<and> \<not> vis
            then padd (cssPosition (r ! nat (max 0 fc))) (advance (r ! nat (max 0 fc)))
            else cssPosition (r ! k))"
    and "fst (snd out) = (if vis then int i else fc)"
    using all by blast+
qed


text \<open>
  The position a character that is not visible takes from its representative: the last
  visible character before it, or the first code unit when there is none (which may be
  the character itself).
\<close>

definition inheritedPosition :: "CharacterResult list \<Rightarrow> CharacterResult list \<Rightarrow> nat \<Rightarrow> QPointF" where
  "inheritedPosition before marked k =
     (let rep = nat (max 0 (lastVisibleBefore marked k))
      in if rep = k then padd (cssPosition (before ! k)) (advance (before ! k))
         else padd (cssPosition (marked ! rep)) (advance (marked ! rep)))"

definition markedUpTo ::
  "CharacterResult list \<Rightarrow> nat \<Rightarrow> (CharacterResult list \<times> int \<times> bool) \<Rightarrow> bool" where
  "markedUpTo before m s =
     (map shapingFrame (fst s) = map shapingFrame before
      \<and> (\<forall>k<m. middle (fst s ! k) = (visualIndex (before ! k) = - 1))
      \<and> (\<forall>k. m \<le> k \<and> k < length before \<longrightarrow>
            hidden (fst s ! k) = hidden (before ! k) \<and> cssPosition (fst s ! k) = cssPosition (before ! k))
      \<and> fst (snd s) = lastVisibleBefore (fst s) m
      \<and> (\<forall>k<m. if visibleChar (fst s ! k)
                 then hidden (fst s ! k) = hidden (before ! k) \<and> cssPosition (fst s ! k) = cssPosition (before ! k)
                 else hidden (fst s ! k) \<and> cssPosition (fst s ! k) = inheritedPosition before (fst s) k))"

lemma shapingFrame_fields:
  assumes "map shapingFrame a = map shapingFrame b" and "k < length a"
  shows "addressable (a ! k) = addressable (b ! k)" "visualIndex (a ! k) = visualIndex (b ! k)"
    "advance (a ! k) = advance (b ! k)" "anchored_chunk (a ! k) = anchored_chunk (b ! k)"
    "finalPosition (a ! k) = finalPosition (b ! k)" "direction (a ! k) = direction (b ! k)"
    "anchor (a ! k) = anchor (b ! k)" "plaintTextIndex (a ! k) = plaintTextIndex (b ! k)"
proof -
  have "length a = length b" using assms(1) by (metis length_map)
  then have e: "shapingFrame (a ! k) = shapingFrame (b ! k)"
    using assms by (metis nth_map)
  show "addressable (a ! k) = addressable (b ! k)"
    using arg_cong [OF e, of addressable] by (simp add: shapingFrame_def)
  show "visualIndex (a ! k) = visualIndex (b ! k)"
    using arg_cong [OF e, of visualIndex] by (simp add: shapingFrame_def)
  show "advance (a ! k) = advance (b ! k)"
    using arg_cong [OF e, of advance] by (simp add: shapingFrame_def)
  show "anchored_chunk (a ! k) = anchored_chunk (b ! k)"
    using arg_cong [OF e, of anchored_chunk] by (simp add: shapingFrame_def)
  show "finalPosition (a ! k) = finalPosition (b ! k)"
    using arg_cong [OF e, of finalPosition] by (simp add: shapingFrame_def)
  show "direction (a ! k) = direction (b ! k)"
    using arg_cong [OF e, of direction] by (simp add: shapingFrame_def)
  show "anchor (a ! k) = anchor (b ! k)"
    using arg_cong [OF e, of anchor] by (simp add: shapingFrame_def)
  show "plaintTextIndex (a ! k) = plaintTextIndex (b ! k)"
    using arg_cong [OF e, of plaintTextIndex] by (simp add: shapingFrame_def)
qed

lemma lastVisibleBefore_cong:
  assumes "\<forall>k<m. visibleChar (a ! k) = visibleChar (b ! k)"
  shows "lastVisibleBefore a m = lastVisibleBefore b m"
  using assms by (induction m) simp_all

lemma lastVisibleBefore_less: "lastVisibleBefore rs m < int m \<and> - 1 \<le> lastVisibleBefore rs m"
  by (induction m) auto


lemma markedUpTo_step:
  assumes inv: "markedUpTo before m s" and m: "m < length before"
  shows "markedUpTo before (Suc m) (markMiddleStep ext tx gb m s)"
proof -
  obtain r fc g where s: "s = (r, fc, g)" by (metis prod_cases3)
  define out where "out = markMiddleStep ext tx gb m (r, fc, g)"
  define vis where "vis = (addressable (r ! m) \<and> visualIndex (r ! m) \<noteq> - 1)"
  have fr: "map shapingFrame r = map shapingFrame before"
    and mid: "\<forall>k<m. middle (r ! k) = (visualIndex (before ! k) = - 1)"
    and rest: "\<forall>k. m \<le> k \<and> k < length before \<longrightarrow>
            hidden (r ! k) = hidden (before ! k) \<and> cssPosition (r ! k) = cssPosition (before ! k)"
    and fc: "fc = lastVisibleBefore r m"
    and prior: "\<forall>k<m. if visibleChar (r ! k)
                 then hidden (r ! k) = hidden (before ! k) \<and> cssPosition (r ! k) = cssPosition (before ! k)
                 else hidden (r ! k) \<and> cssPosition (r ! k) = inheritedPosition before r k"
    using inv unfolding markedUpTo_def s fst_conv snd_conv by blast+
  have len: "length r = length before" using fr by (metis length_map)
  have mr: "m < length r" using m len by simp
  have fo: "map shapingFrame (fst out) = map shapingFrame before"
    using markMiddleStep_frame [of ext tx gb m "(r, fc, g)"] fr by (simp add: out_def)
  have leno: "length (fst out) = length before" using fo by (metis length_map)
  have F_mid: "middle (fst out ! k) = (if k = m then visualIndex (r ! m) = - 1 else middle (r ! k))"
    and F_hid: "hidden (fst out ! k) = (if k = m \<and> \<not> vis then True else hidden (r ! k))"
    and F_css: "cssPosition (fst out ! k) =
           (if k = m \<and> \<not> vis
            then padd (cssPosition (r ! nat (max 0 fc))) (advance (r ! nat (max 0 fc)))
            else cssPosition (r ! k))"
    if "k < length r" for k
    using markMiddleStep_fields [OF mr that, where ext = ext and tx = tx and gb = gb and fc = fc and g = g]
    unfolding out_def vis_def by blast+
  have F_fc: "fst (snd out) = (if vis then int m else fc)"
    using markMiddleStep_fields(4) [OF mr mr, where ext = ext and tx = tx and gb = gb and fc = fc and g = g]
    unfolding out_def vis_def by blast
  have addr: "addressable (fst out ! k) = addressable (r ! k)"
    and adv: "advance (fst out ! k) = advance (r ! k)"
    and advb: "advance (r ! k) = advance (before ! k)"
    and vib: "visualIndex (r ! k) = visualIndex (before ! k)"
    if "k < length r" for k
    using shapingFrame_fields [OF fo, of k] shapingFrame_fields [OF fr, of k] that leno len by simp_all
  have visk: "visibleChar (fst out ! k) = visibleChar (r ! k)" if "k < m" for k
    using that mr addr [of k] F_mid [of k] by (simp add: visibleChar_def)
  have vism: "visibleChar (fst out ! m) = vis"
    using mr addr [of m] F_mid [of m] by (auto simp: visibleChar_def vis_def)
  have lvb: "lastVisibleBefore (fst out) k = lastVisibleBefore r k" if "k \<le> m" for k
    using lastVisibleBefore_cong [of k "fst out" r] visk that by simp
  have c2: "\<forall>k<Suc m. middle (fst out ! k) = (visualIndex (before ! k) = - 1)"
  proof (intro allI impI)
    fix k assume "k < Suc m"
    then have kl: "k < length r" using mr by simp
    show "middle (fst out ! k) = (visualIndex (before ! k) = - 1)"
    proof (cases "k = m")
      case True
      then show ?thesis using F_mid [OF kl] vib [OF kl] by simp
    next
      case False
      then have "k < m" using \<open>k < Suc m\<close> by simp
      then show ?thesis using F_mid [OF kl] mid False by simp
    qed
  qed
  have c3: "\<forall>k. Suc m \<le> k \<and> k < length before \<longrightarrow>
            hidden (fst out ! k) = hidden (before ! k) \<and> cssPosition (fst out ! k) = cssPosition (before ! k)"
  proof (intro allI impI)
    fix k assume a: "Suc m \<le> k \<and> k < length before"
    then have kl: "k < length r" and km: "k \<noteq> m" and "m \<le> k" using len by simp_all
    then show "hidden (fst out ! k) = hidden (before ! k) \<and> cssPosition (fst out ! k) = cssPosition (before ! k)"
      using F_hid [OF kl] F_css [OF kl] rest a by simp
  qed
  have c4: "fst (snd out) = lastVisibleBefore (fst out) (Suc m)"
    using F_fc vism lvb [of m] fc by simp
  have c5: "\<forall>k<Suc m. if visibleChar (fst out ! k)
                 then hidden (fst out ! k) = hidden (before ! k) \<and> cssPosition (fst out ! k) = cssPosition (before ! k)
                 else hidden (fst out ! k) \<and> cssPosition (fst out ! k) = inheritedPosition before (fst out) k"
  proof (intro allI impI)
    fix k assume ks: "k < Suc m"
    then have kl: "k < length r" using mr by simp
    show "if visibleChar (fst out ! k)
            then hidden (fst out ! k) = hidden (before ! k) \<and> cssPosition (fst out ! k) = cssPosition (before ! k)
            else hidden (fst out ! k) \<and> cssPosition (fst out ! k) = inheritedPosition before (fst out) k"
    proof (cases "k = m")
      case False
      then have km: "k < m" using ks by simp
      define rep where "rep = nat (max 0 (lastVisibleBefore r k))"
      have repk: "rep \<le> k" using lastVisibleBefore_less [of r k] unfolding rep_def by linarith
      then have repl: "rep < length r" using kl by simp
      have "rep \<noteq> m" using repk km by simp
      then have "cssPosition (fst out ! rep) = cssPosition (r ! rep)" "advance (fst out ! rep) = advance (r ! rep)"
        using F_css [OF repl] adv [OF repl] by simp_all
      then have ip: "inheritedPosition before (fst out) k = inheritedPosition before r k"
        using lvb [of k] km by (simp add: inheritedPosition_def rep_def Let_def)
      show ?thesis
        using prior km visk [OF km] F_hid [OF kl] F_css [OF kl] ip False by simp
    next
      case True
      show ?thesis
      proof (cases vis)
        case v: True
        then show ?thesis
          using True vism F_hid [OF mr] F_css [OF mr] rest m by simp
      next
        case v: False
        define rep where "rep = nat (max 0 fc)"
        have repm: "rep \<le> m" using lastVisibleBefore_less [of r m] fc unfolding rep_def by linarith
        then have repl: "rep < length r" using mr by simp
        have cssm: "cssPosition (fst out ! m) = padd (cssPosition (r ! rep)) (advance (r ! rep))"
          using F_css [OF mr] v by (simp add: rep_def)
        have "padd (cssPosition (r ! rep)) (advance (r ! rep)) = inheritedPosition before (fst out) m"
        proof (cases "rep = m")
          case True
          then show ?thesis
            using lvb [of m] fc rest m advb [OF mr] by (simp add: inheritedPosition_def rep_def Let_def)
        next
          case False
          then have "cssPosition (fst out ! rep) = cssPosition (r ! rep)" "advance (fst out ! rep) = advance (r ! rep)"
            using F_css [OF repl] adv [OF repl] by simp_all
          then show ?thesis
            using lvb [of m] fc False by (simp add: inheritedPosition_def rep_def Let_def)
        qed
        then show ?thesis
          using True vism v F_hid [OF mr] cssm by simp
      qed
    qed
  qed
  show ?thesis
    unfolding markedUpTo_def s out_def [symmetric]
    using fo c2 c3 c4 c5 by blast
qed

lemma markedUpTo_fold:
  assumes "m \<le> length before"
  shows "markedUpTo before m (fold (markMiddleStep ext tx gb) [0..<m] (before, - 1, False))"
  using assms
proof (induction m)
  case 0
  then show ?case by (simp add: markedUpTo_def)
next
  case (Suc m)
  then have "markedUpTo before m (fold (markMiddleStep ext tx gb) [0..<m] (before, - 1, False))" by simp
  from markedUpTo_step [OF this, of ext tx gb] Suc.prems show ?case by simp
qed

lemma markMiddle_marked:
  "markedUpTo before (length before) (markMiddle ext tx gb before)"
  unfolding markMiddle_def by (rule markedUpTo_fold) simp

lemma length_assignPlainTextIndices [simp]:
  "length (assignPlainTextIndices cts result) = length result"
proof -
  have "length (fold (\<lambda>mapping r.
             if fst mapping < 0 then r
             else if fst mapping < int (length r)
             then r[nat (fst mapping) := (r ! nat (fst mapping))\<lparr>plaintTextIndex := snd mapping\<rparr>]
             else r) ms r0) = length r0" for ms and r0 :: "CharacterResult list"
    by (induction ms arbitrary: r0) simp_all
  then show ?thesis by (simp add: assignPlainTextIndices_def)
qed

lemma chunkCharacters_length:
  "chunkCharacters w s lb gb c start i result = Inr result' \<Longrightarrow> length result' = length result"
proof (induction w s lb gb c start i result rule: chunkCharacters.induct)
  case (1 w s lb gb c start i result)
  show ?case
  proof (cases "i < length (chunkText c)")
    case False
    then show ?thesis using "1.prems" by (subst (asm) chunkCharacters.simps) simp
  next
    case True
    have nb: "\<not> (start + int i < 0 \<or> int (length result) \<le> start + int i)"
      using "1.prems" True by (subst (asm) chunkCharacters.simps) (auto split: if_splits)
    have "chunkCharacters w s lb gb c start (i + 1)
                (result[nat (start + int i) :=
                   chunkCharacter w s lb gb c (nat (start + int i)) i
                     (result ! nat (start + int i))]) = Inr result'"
      using "1.prems" True nb by (subst (asm) chunkCharacters.simps) simp
    from "1.IH" [OF True nb this] show ?thesis by simp
  qed
qed

lemma chunkLoop_length:
  "chunkLoop w s lb gb ps chunks start result = Inr result' \<Longrightarrow> length result' = length result"
proof (induction chunks arbitrary: start result)
  case Nil
  then show ?case by simp
next
  case (Cons c chunks)
  from Cons.prems obtain r1 start1 where
    a: "chunkCharacters w s lb gb c start 0 result = Inr r1"
    and b: "chunkLoop w s lb gb ps chunks start1 r1 = Inr result'"
    by (auto split: sum.splits)
  from Cons.IH [OF b] chunkCharacters_length [OF a] show ?case by simp
qed

lemma glyphLoop_length:
  "glyphLoop ext gs i result t0 = Inr (result', t1) \<Longrightarrow> length result' = length result"
proof (induction gs arbitrary: i result t0)
  case Nil
  then show ?case by simp
next
  case (Cons g gs)
  show ?case
  proof (cases "addressable (result ! cluster g)")
    case False
    then have "glyphLoop ext gs (i + 1) result t0 = Inr (result', t1)"
      using Cons.prems by (simp split: if_splits)
    from Cons.IH [OF this] show ?thesis .
  next
    case True
    obtain ok cr t' where l: "loadGlyph ext g (result ! cluster g) t0 = (ok, cr, t')"
      by (metis prod_cases3)
    show ?thesis
    proof (cases ok)
      case False
      then have "glyphLoop ext gs (i + 1) result t' = Inr (result', t1)"
        using Cons.prems True l by (simp split: if_splits)
      from Cons.IH [OF this] show ?thesis .
    next
      case ok: True
      then have "glyphLoop ext gs (i + 1)
                   (result[cluster g := cr\<lparr>visualIndex := int i, middle := False\<rparr>]) t' = Inr (result', t1)"
        using Cons.prems True l by (simp split: if_splits)
      from Cons.IH [OF this] show ?thesis by simp
    qed
  qed
qed


text \<open>The array without the entry at \<open>dummyIndex\<close> (the whole array when it is negative).\<close>

definition withoutDummy :: "int \<Rightarrow> CharacterResult list \<Rightarrow> CharacterResult list" where
  "withoutDummy dummyIndex result =
     (if dummyIndex < 0 then result
      else take (nat dummyIndex) result @ drop (nat dummyIndex + 1) result)"

lemma withoutDummy_insertAt:
  "i \<le> length xs \<Longrightarrow> withoutDummy (int i) (insertAt i v xs) = xs"
  by (simp add: withoutDummy_def insertAt_def)

lemma relayout_Shaped:
  assumes "relayout ext settings st = Inr (Shaped st1 result resolved dummyIndex)"
  shows "\<exists>r0 others rs result1 glyphs shaped.
      textData st = r0 # others
    \<and> resolveTransforms (mergeTransformation ext) (shaperText ext (clearAssociatedOutlines r0))
          (settingsIsHorizontal settings)
          (snd (collapseSpaces ext (fst (collectText (collectSubChunks ext (clearAssociatedOutlines r0)) [] [] []))))
          (clearAssociatedOutlines r0) (settingsWrapped settings) False
          \<lparr>rsResult = assignPlainTextIndices
                         (snd (snd (collectText (collectSubChunks ext (clearAssociatedOutlines r0)) [] [] [])))
                         (replicate (length (collapsedText ext (clearAssociatedOutlines r0))) CharacterResult0),
           rsResolved = initialResolvedTransforms (length (collapsedText ext (clearAssociatedOutlines r0))),
           rsCurrentIndex = 0\<rparr> = Inr rs
    \<and> (if raqm_set_text_utf16 ext (shaperText ext (clearAssociatedOutlines r0))
        then chunkLoop (settingsWrap settings) (settingsLineBreak settings)
               (lineBreaksOf ext (clearAssociatedOutlines r0)) (graphemeBreaksOf ext (clearAssociatedOutlines r0))
               (length (fst (snd (collectText (collectSubChunks ext (clearAssociatedOutlines r0)) [] [] []))))
               (collectSubChunks ext (clearAssociatedOutlines r0)) 0 (rsResult rs)
        else Inr (rsResult rs)) = Inr result1
    \<and> raqm_get_glyphs ext (shaperText ext (clearAssociatedOutlines r0)) = Some glyphs
    \<and> glyphLoop ext glyphs 0 (markFirstAnchored result1) QPointF0 = Inr shaped
    \<and> finishShaping (settingsIsHorizontal settings)
          (length (fst (snd (collectText (collectSubChunks ext (clearAssociatedOutlines r0)) [] [] []))))
          (markMiddle ext (shaperText ext (clearAssociatedOutlines r0))
             (graphemeBreaksOf ext (clearAssociatedOutlines r0)) (fst shaped))
          (rsResolved rs) = Inr (result, resolved, dummyIndex)"
  using assms unfolding relayout_def Let_def
  by (auto split: list.splits sum.splits option.splits if_splits)


lemma length_initialResolvedTransforms [simp]: "length (initialResolvedTransforms n) = n"
  by (simp add: initialResolvedTransforms_def Let_def)

lemma length_markFirstAnchored [simp]: "length (markFirstAnchored result) = length result"
  by (simp add: markFirstAnchored_def)

lemma glyphLoop_anchored:
  assumes "glyphLoop ext gs i result t0 = Inr (result', t1)"
    and "\<forall>g cr t. anchored_chunk (fst (snd (loadGlyph ext g cr t))) = anchored_chunk cr"
  shows "anchored_chunk (result' ! k) = anchored_chunk (result ! k)"
  using assms(1)
proof (induction gs arbitrary: i result t0)
  case Nil
  then show ?case by simp
next
  case (Cons g gs)
  have inb: "cluster g < length result"
    using Cons.prems by (simp split: if_splits)
  show ?case
  proof (cases "addressable (result ! cluster g)")
    case False
    then have "glyphLoop ext gs (i + 1) result t0 = Inr (result', t1)"
      using Cons.prems by (simp split: if_splits)
    from Cons.IH [OF this] show ?thesis .
  next
    case True
    obtain ok cr t' where l: "loadGlyph ext g (result ! cluster g) t0 = (ok, cr, t')"
      by (metis prod_cases3)
    have cr: "anchored_chunk cr = anchored_chunk (result ! cluster g)"
      using assms(2) [rule_format, of g "result ! cluster g" t0] l by simp
    show ?thesis
    proof (cases ok)
      case False
      then have "glyphLoop ext gs (i + 1) result t' = Inr (result', t1)"
        using Cons.prems True l by (simp split: if_splits)
      from Cons.IH [OF this] show ?thesis .
    next
      case ok: True
      then have "glyphLoop ext gs (i + 1)
                   (result[cluster g := cr\<lparr>visualIndex := int i, middle := False\<rparr>]) t' = Inr (result', t1)"
        using Cons.prems True l by (simp split: if_splits)
      from Cons.IH [OF this] have "anchored_chunk (result' ! k) =
          anchored_chunk (result[cluster g := cr\<lparr>visualIndex := int i, middle := False\<rparr>] ! k)" .
      then show ?thesis using cr inb by (cases "k = cluster g") simp_all
    qed
  qed
qed

text \<open>What \<open>finishShaping\<close> returns, in terms of the array before the insertion.\<close>

lemma finishShaping_result:
  assumes fin: "finishShaping h ps (m, fc, g) resolved = Inr (result, resolved', dummyIndex)"
  defines "fC \<equiv> nat (max 0 fc)"
  defines "chars \<equiv> withoutDummy dummyIndex result"
  shows "fC < length m
    \<and> map shapingFrame chars = map shapingFrame m
    \<and> map middle chars = map middle m
    \<and> map breakType chars = map breakType m
    \<and> (if breakType (chars ! fC) = HardBreak
        then result = insertAt (fC + 1) (dummyCharacter h (chars ! fC)) chars \<and> dummyIndex = int fC + 1
        else result = chars \<and> dummyIndex = - 1)"
proof -
  have inb: "fC < length m"
    using fin unfolding finishShaping_def fC_def by (simp add: Let_def split: if_splits)
  define c0 where "c0 = (if graphemeIndices (m ! fC) = [] \<or> g
                           then m[fC := (m ! fC)\<lparr>graphemeIndices := graphemeIndices (m ! fC) @ [int ps]\<rparr>]
                           else m)"
  have len0: "length c0 = length m" by (simp add: c0_def)
  have fr0: "map shapingFrame c0 = map shapingFrame m"
    by (simp add: c0_def map_shapingFrame_update shapingFrame_def)
  have mid0: "map middle c0 = map middle m" and bt0: "map breakType c0 = map breakType m"
    using inb by (simp_all add: c0_def map_update list_update_same_conv)
  have split: "(breakType (c0 ! fC) = HardBreak \<and> result = insertAt (fC + 1) (dummyCharacter h (c0 ! fC)) c0
                  \<and> dummyIndex = int fC + 1)
             \<or> (breakType (c0 ! fC) \<noteq> HardBreak \<and> result = c0 \<and> dummyIndex = - 1)"
    using fin inb unfolding finishShaping_def fC_def [symmetric] Let_def prod.case c0_def [symmetric]
    by (auto split: if_splits)
  have ch: "chars = c0"
  proof (cases "breakType (c0 ! fC) = HardBreak")
    case True
    then have r: "result = insertAt (fC + 1) (dummyCharacter h (c0 ! fC)) c0"
      and d: "dummyIndex = int (fC + 1)" using split by auto
    have "fC + 1 \<le> length c0" using inb len0 by simp
    then show ?thesis unfolding chars_def r d by (rule withoutDummy_insertAt)
  next
    case False
    then show ?thesis using split by (auto simp: chars_def withoutDummy_def)
  qed
  show ?thesis
    using inb fr0 mid0 bt0 split unfolding ch by auto
qed



lemma dummyCharacter_addressable: "addressable (dummyCharacter h hardbreak)"
  by (simp add: dummyCharacter_def Let_def)


lemma nth_insertAt_before: "k < i \<Longrightarrow> i \<le> length xs \<Longrightarrow> insertAt i v xs ! k = xs ! k"
  by (simp add: insertAt_def nth_append)

lemma relayout_shaped_length:
  assumes "relayout ext settings st = Inr (Shaped st1 result resolved dummyIndex)"
  shows "\<exists>shaped t1.
      textData st \<noteq> []
    \<and> length shaped = length (collapsedText ext (clearAssociatedOutlines (hd (textData st))))
    \<and> ((\<forall>g cr t. anchored_chunk (fst (snd (loadGlyph ext g cr t))) = anchored_chunk cr) \<longrightarrow>
          shaped \<noteq> [] \<longrightarrow> anchored_chunk (shaped ! 0))
    \<and> (\<exists>ps resolved0.
          finishShaping (settingsIsHorizontal settings) ps
            (markMiddle ext (shaperText ext (clearAssociatedOutlines (hd (textData st))))
               (graphemeBreaksOf ext (clearAssociatedOutlines (hd (textData st)))) shaped)
            resolved0 = Inr (result, resolved, dummyIndex))"
proof -
  from relayout_Shaped [OF assms] obtain r0 others rs result1 glyphs shaped where
    td: "textData st = r0 # others"
    and rt: "resolveTransforms (mergeTransformation ext) (shaperText ext (clearAssociatedOutlines r0))
          (settingsIsHorizontal settings)
          (snd (collapseSpaces ext (fst (collectText (collectSubChunks ext (clearAssociatedOutlines r0)) [] [] []))))
          (clearAssociatedOutlines r0) (settingsWrapped settings) False
          \<lparr>rsResult = assignPlainTextIndices
                         (snd (snd (collectText (collectSubChunks ext (clearAssociatedOutlines r0)) [] [] [])))
                         (replicate (length (collapsedText ext (clearAssociatedOutlines r0))) CharacterResult0),
           rsResolved = initialResolvedTransforms (length (collapsedText ext (clearAssociatedOutlines r0))),
           rsCurrentIndex = 0\<rparr> = Inr rs"
    and cl: "(if raqm_set_text_utf16 ext (shaperText ext (clearAssociatedOutlines r0))
        then chunkLoop (settingsWrap settings) (settingsLineBreak settings)
               (lineBreaksOf ext (clearAssociatedOutlines r0)) (graphemeBreaksOf ext (clearAssociatedOutlines r0))
               (length (fst (snd (collectText (collectSubChunks ext (clearAssociatedOutlines r0)) [] [] []))))
               (collectSubChunks ext (clearAssociatedOutlines r0)) 0 (rsResult rs)
        else Inr (rsResult rs)) = Inr result1"
    and gl: "glyphLoop ext glyphs 0 (markFirstAnchored result1) QPointF0 = Inr shaped"
    and fin: "finishShaping (settingsIsHorizontal settings)
          (length (fst (snd (collectText (collectSubChunks ext (clearAssociatedOutlines r0)) [] [] []))))
          (markMiddle ext (shaperText ext (clearAssociatedOutlines r0))
             (graphemeBreaksOf ext (clearAssociatedOutlines r0)) (fst shaped))
          (rsResolved rs) = Inr (result, resolved, dummyIndex)"
    by blast
  define n where "n = length (collapsedText ext (clearAssociatedOutlines r0))"
  have l1: "length (rsResult rs) = n"
    using resolveTransforms_lengths(1) [OF rt] by (simp add: n_def)
  have l2: "length result1 = n"
    using cl l1 chunkLoop_length by (auto split: if_splits)
  obtain sh t1 where sh: "shaped = (sh, t1)" by (cases shaped)
  have l3: "length sh = n"
    using glyphLoop_length [OF gl [unfolded sh]] l2 by simp
  have anch: "anchored_chunk (sh ! 0)"
    if "\<forall>g cr t. anchored_chunk (fst (snd (loadGlyph ext g cr t))) = anchored_chunk cr" and "sh \<noteq> []"
  proof -
    have "result1 \<noteq> []" using that(2) l3 l2 by auto
    then have "anchored_chunk (markFirstAnchored result1 ! 0)"
      by (simp add: markFirstAnchored_def)
    then show ?thesis
      using glyphLoop_anchored [OF gl [unfolded sh] that(1), of 0] by simp
  qed
  show ?thesis
    using td l3 anch fin unfolding sh n_def by (intro exI [of _ sh] exI [of _ t1]) auto
qed

text \<open>
  Concrete surroundings to run \<open>relayout\<close> on: one chunk per text, no white space
  collapsed, a line feed as the only mandatory break, a shaper that returns the given
  glyph array, and a \<open>loadGlyph\<close> that sets the advance to 10 and succeeds or fails as
  told.
\<close>

definition demoChunk :: "QChar list \<Rightarrow> SubChunk" where
  "demoChunk tx =
     \<lparr>chunkText = tx, originalText = tx,
      newToOldPositions = map (\<lambda>i. (int i, int i)) [0..<length tx],
      firstTextInPath = False, chunkAnchor = AnchorStart, chunkDirection = DirectionLeftToRight,
      chunkWordBreak = WordBreakNormal, fontRunLengths = [int (length tx)]\<rparr>"

definition demoExternals :: "SubChunk list \<Rightarrow> raqm_glyph_t list option \<Rightarrow> bool \<Rightarrow> Externals" where
  "demoExternals chunks glyphs loads =
     \<lparr>collectSubChunks = (\<lambda>e. chunks),
      collapseSpaces = (\<lambda>tx. (tx, map (\<lambda>c. False) tx)),
      set_linebreaks = (\<lambda>tx i. if tx ! i = 0x0A then LINEBREAK_MUSTBREAK else LINEBREAK_NOBREAK),
      set_graphemebreaks = (\<lambda>tx i. True),
      isSpace = (\<lambda>c. c = 0x20 \<or> c = 0x0A),
      mergeTransformation = mergeInParentTransformation,
      raqm_set_text_utf16 = (\<lambda>tx. True),
      raqm_get_glyphs = (\<lambda>tx. glyphs),
      loadGlyph = (\<lambda>gl cr t. (loads, cr\<lparr>advance := \<lparr>ptx = Fin 10, pty = 0\<rparr>, cssPosition := t\<rparr>,
                                   padd t \<lparr>ptx = Fin 10, pty = 0\<rparr>))\<rparr>"

definition demoElement :: "nat \<Rightarrow> KoSvgTextContentElement" where
  "demoElement n =
     Element \<lparr>localTransformations = [], textPath = False, numCharsAll = n, textLengthIsAuto = True,
              textLengthCustomValue = 0, lengthAdjust = LengthAdjustSpacing,
              associatedOutline = [(QPointF0, QPointF0)], textDecorations = []\<rparr> []"

definition demoState :: "nat \<Rightarrow> ShapeState" where
  "demoState n =
     \<lparr>textData = [demoElement n], shapeResult = [CharacterResult0], cursorPos = [(0, 0, 0)],
      logicalToVisualCursorPos = [(0, 0)], initialTextPosition = \<lparr>ptx = Fin 1, pty = Fin 1\<rparr>\<rparr>"

definition demoSettings :: RootSettings where
  "demoSettings = \<lparr>settingsIsHorizontal = True, settingsWrapped = False, settingsWrap = NoWrap,
                    settingsLineBreak = LineBreakAuto\<rparr>"


definition demoBreakExternals :: Externals where
  "demoBreakExternals =
     demoExternals [demoChunk [0x41, 0x0A]]
       (Some [\<lparr>glyphIndex = 0, cluster = 0\<rparr>, \<lparr>glyphIndex = 1, cluster = 1\<rparr>]) True"

definition demoBreakOutcome :: RelayoutOutcome where
  "demoBreakOutcome = projr (relayout demoBreakExternals demoSettings (demoState 2))"




text \<open>
  The call of \<open>resolveTransforms\<close> at line 244, from given resolved transforms; and a tree
  that declares no transform: no node has a local transformation or a text path.
\<close>

definition resolveForLayout ::
  "Externals \<Rightarrow> RootSettings \<Rightarrow> KoSvgTextContentElement \<Rightarrow> CharTransformation list \<Rightarrow>
   LayoutError + ResolveState" where
  "resolveForLayout ext settings r initial =
     resolveTransforms (mergeTransformation ext) (shaperText ext r) (settingsIsHorizontal settings)
       (snd (collapseSpaces ext (fst (collectText (collectSubChunks ext r) [] [] []))))
       r (settingsWrapped settings) False
       \<lparr>rsResult = assignPlainTextIndices (snd (snd (collectText (collectSubChunks ext r) [] [] [])))
                     (replicate (length (collapsedText ext r)) CharacterResult0),
        rsResolved = initial, rsCurrentIndex = 0\<rparr>"

fun declaresNoTransform :: "KoSvgTextContentElement \<Rightarrow> bool" where
  "declaresNoTransform (Element d cs) =
     (localTransformations d = [] \<and> \<not> textPath d \<and> (\<forall>c\<in>set cs. declaresNoTransform c))"

lemma resolveLocalStep_first:
  assumes "resolveLocalStep mergeIn tx wrapped collapsedChars [] k (result, resolved, i) = (result', resolved', i')"
  shows "resolved' ! 0 = resolved ! 0"
  using assms by (auto simp: resolveLocalStep_def split: if_splits)

lemma resolveLocalFold_first:
  assumes "fold (resolveLocalStep mergeIn tx wrapped collapsedChars []) ks (result, resolved, i) = (result', resolved', i')"
  shows "resolved' ! 0 = resolved ! 0"
  using assms
proof (induction ks arbitrary: result resolved i)
  case Nil
  then show ?case by simp
next
  case (Cons k ks)
  obtain r1 rs1 i1 where s: "resolveLocalStep mergeIn tx wrapped collapsedChars [] k (result, resolved, i) = (r1, rs1, i1)"
    by (metis prod_cases3)
  from Cons.prems have "fold (resolveLocalStep mergeIn tx wrapped collapsedChars []) ks (r1, rs1, i1) = (result', resolved', i')"
    by (simp add: s)
  from Cons.IH [OF this] resolveLocalStep_first [OF s] show ?case by simp
qed

lemma resolveTransforms_first:
  "resolveTransforms mergeIn tx h coll e wrapped tip st = Inr st' \<Longrightarrow> declaresNoTransform e \<Longrightarrow>
     rsResolved st' ! 0 = rsResolved st ! 0"
  "resolveTransformsChildren mergeIn tx h coll es tip st = Inr st' \<Longrightarrow> \<forall>c\<in>set es. declaresNoTransform c \<Longrightarrow>
     rsResolved st' ! 0 = rsResolved st ! 0"
proof (induction mergeIn tx h coll e wrapped tip st and mergeIn tx h coll es tip st
       arbitrary: st' and st' rule: resolveTransforms_resolveTransformsChildren.induct)
  case (1 mergeIn tx h coll d cs wrapped tip st)
  have nl: "localTransformations d = []" and np: "\<not> textPath d" and ch: "\<forall>c\<in>set cs. declaresNoTransform c"
    using "1.prems"(2) by simp_all
  define index where "index = rsCurrentIndex st"
  define j where "j = index + numCharsAll d"
  define st1 where "st1 = (if textPath d then st
                 else (case fold (resolveLocalStep mergeIn tx wrapped coll (localTransformations d))
                              [index..<j] (rsResult st, rsResolved st, 0) of
                         (result, resolved, i) \<Rightarrow> st\<lparr>rsResult := result, rsResolved := resolved\<rparr>))"
  obtain r rs i where f: "fold (resolveLocalStep mergeIn tx wrapped coll [])
                              [index..<j] (rsResult st, rsResolved st, 0) = (r, rs, i)"
    by (metis prod_cases3)
  have l1: "rsResolved st1 ! 0 = rsResolved st ! 0"
    using resolveLocalFold_first [OF f] np by (simp add: st1_def nl f)
  have unfolded: "resolveTransforms mergeIn tx h coll (Element d cs) wrapped tip st =
      (case resolveTransformsChildren mergeIn tx h coll cs (tip \<or> textPath d) st1 of
           Inl e \<Rightarrow> Inl e
         | Inr st2 \<Rightarrow>
             (if textPath d then
                (case resolvePathLoop h (rsResult st2) index j True (rsResolved st2) of
                   Inl e \<Rightarrow> Inl e
                 | Inr resolved \<Rightarrow> Inr (st2\<lparr>rsResolved := resolved, rsCurrentIndex := j\<rparr>))
              else Inr (st2\<lparr>rsCurrentIndex := j\<rparr>)))"
    unfolding resolveTransforms.simps Let_def index_def j_def st1_def by (rule refl)
  have "\<exists>st2. resolveTransformsChildren mergeIn tx h coll cs (tip \<or> textPath d) st1 = Inr st2"
    using "1.prems"(1) unfolding unfolded
    by (cases "resolveTransformsChildren mergeIn tx h coll cs (tip \<or> textPath d) st1") simp_all
  then obtain st2 where
    c: "resolveTransformsChildren mergeIn tx h coll cs (tip \<or> textPath d) st1 = Inr st2" by blast
  have l2: "rsResolved st2 ! 0 = rsResolved st1 ! 0"
    using "1.IH" [OF index_def j_def st1_def c ch] .
  have "st' = st2\<lparr>rsCurrentIndex := j\<rparr>"
    using "1.prems"(1) c np unfolding unfolded by simp
  then show ?case using l1 l2 by simp
next
  case (2 mergeIn tx h coll tip st)
  then show ?case by simp
next
  case (3 mergeIn tx h coll c cs tip st)
  from "3.prems"(1) obtain st1 where
    a: "resolveTransforms mergeIn tx h coll c False tip st = Inr st1"
    and b: "resolveTransformsChildren mergeIn tx h coll cs tip st1 = Inr st'"
    by (auto split: sum.splits)
  have c1: "declaresNoTransform c" and c2: "\<forall>c\<in>set cs. declaresNoTransform c"
    using "3.prems"(2) by simp_all
  from "3.IH"(1) [OF a c1] "3.IH"(2) [OF a b c2] show ?case by simp
qed

lemma finishShaping_transforms:
  assumes "finishShaping h ps st resolved = Inr (result, resolved', dummyIndex)"
  shows "resolved' = (if dummyIndex < 0 then resolved
                      else insertAt (nat dummyIndex) CharTransformation0 resolved)
         \<and> (dummyIndex < 0 \<or> 1 \<le> dummyIndex)"
proof -
  obtain m fc g where st: "st = (m, fc, g)" by (metis prod_cases3)
  show ?thesis
    using assms unfolding st finishShaping_def Let_def prod.case
    by (auto split: if_splits simp: nat_add_distrib)
qed

lemma initialResolvedTransforms_alt:
  "initialResolvedTransforms n =
     (replicate n CharTransformation0)[0 := CharTransformation0\<lparr>xPos := Some 0, yPos := Some 0\<rparr>]"
  by (cases n) (simp_all add: initialResolvedTransforms_def Let_def)

text \<open>
  Claim C10. When \<open>relayout\<close> reaches the later passes the collapsed text is not empty,
  and the first entry of its array is an anchored chunk start, whatever the tree declares,
  provided \<open>loadGlyph\<close> (which is outside the sources) leaves that flag alone. The resolved
  transforms it ends with are those the tree walk of line 244 makes of an array in which
  the first code unit has the absolute position (0, 0) and every other code unit has no
  transform, with the empty transform of the synthetic entry inserted; so when the tree
  declares no transform, the first code unit is still at (0, 0) at the end.
\<close>

theorem relayout_first_character_anchored:
  assumes run: "relayout ext settings st = Inr (Shaped st1 result resolved dummyIndex)"
    and keep: "\<forall>g cr t. anchored_chunk (fst (snd (loadGlyph ext g cr t))) = anchored_chunk cr"
  shows "let r = clearAssociatedOutlines (hd (textData st));
             n = length (collapsedText ext r);
             initial = (replicate n CharTransformation0)[0 := CharTransformation0\<lparr>xPos := Some 0, yPos := Some 0\<rparr>]
         in 0 < n \<and> result \<noteq> [] \<and> anchored_chunk (result ! 0)
          \<and> (\<exists>rs. resolveForLayout ext settings r initial = Inr rs
                \<and> resolved = (if dummyIndex < 0 then rsResolved rs
                               else insertAt (nat dummyIndex) CharTransformation0 (rsResolved rs)))
          \<and> (declaresNoTransform r \<longrightarrow> xPos (resolved ! 0) = Some 0 \<and> yPos (resolved ! 0) = Some 0)"
proof -
  define r where "r = clearAssociatedOutlines (hd (textData st))"
  define n where "n = length (collapsedText ext r)"
  define initial where "initial = (replicate n CharTransformation0)[0 := CharTransformation0\<lparr>xPos := Some 0, yPos := Some 0\<rparr>]"
  define chars where "chars = withoutDummy dummyIndex result"
  define h where "h = settingsIsHorizontal settings"
  from relayout_shaped_length [OF run] keep obtain shaped ps resolved0 where
    len: "length shaped = n"
    and anch: "shaped \<noteq> [] \<longrightarrow> anchored_chunk (shaped ! 0)"
    and fin: "finishShaping h ps
            (markMiddle ext (shaperText ext r) (graphemeBreaksOf ext r) shaped)
            resolved0 = Inr (result, resolved, dummyIndex)"
    unfolding n_def h_def r_def by auto
  obtain m fc g where mm: "markMiddle ext (shaperText ext r) (graphemeBreaksOf ext r) shaped = (m, fc, g)"
    by (metis prod_cases3)
  have inv: "markedUpTo shaped n (m, fc, g)"
    using markMiddle_marked [of shaped ext] len unfolding mm [symmetric] by simp
  then have fm: "map shapingFrame m = map shapingFrame shaped"
    unfolding markedUpTo_def by simp
  have lm: "length m = n" using fm len by (metis length_map)
  note F = finishShaping_result [OF fin [unfolded mm], folded chars_def]
  have inb: "nat (max 0 fc) < length m"
    and fch: "map shapingFrame chars = map shapingFrame m"
    and cases: "if breakType (chars ! nat (max 0 fc)) = HardBreak
        then result = insertAt (nat (max 0 fc) + 1) (dummyCharacter h (chars ! nat (max 0 fc))) chars
             \<and> dummyIndex = int (nat (max 0 fc)) + 1
        else result = chars \<and> dummyIndex = - 1"
    using F by blast+
  have lc: "length chars = n" using fch lm by (metis length_map)
  have pos: "0 < n" using inb lm by simp
  have a1: "anchored_chunk (chars ! 0)"
    using shapingFrame_fields(4) [OF fch, of 0] shapingFrame_fields(4) [OF fm, of 0] anch pos lc lm len
    by auto
  have a2: "result ! 0 = chars ! 0 \<and> result \<noteq> []"
  proof (cases "breakType (chars ! nat (max 0 fc)) = HardBreak")
    case True
    then have rr: "result = insertAt (nat (max 0 fc) + 1) (dummyCharacter h (chars ! nat (max 0 fc))) chars"
      using cases by simp
    have "nat (max 0 fc) + 1 \<le> length chars" using inb lm lc by simp
    then show ?thesis unfolding rr using nth_insertAt_before [of 0 "nat (max 0 fc) + 1" chars]
      by (simp add: insertAt_def)
  next
    case False
    then show ?thesis using cases lc pos by auto
  qed
  from relayout_Shaped [OF run] obtain r0 others rs result1 glyphs sh where
    td: "textData st = r0 # others"
    and rt: "resolveTransforms (mergeTransformation ext) (shaperText ext (clearAssociatedOutlines r0))
          (settingsIsHorizontal settings)
          (snd (collapseSpaces ext (fst (collectText (collectSubChunks ext (clearAssociatedOutlines r0)) [] [] []))))
          (clearAssociatedOutlines r0) (settingsWrapped settings) False
          \<lparr>rsResult = assignPlainTextIndices
                         (snd (snd (collectText (collectSubChunks ext (clearAssociatedOutlines r0)) [] [] [])))
                         (replicate (length (collapsedText ext (clearAssociatedOutlines r0))) CharacterResult0),
           rsResolved = initialResolvedTransforms (length (collapsedText ext (clearAssociatedOutlines r0))),
           rsCurrentIndex = 0\<rparr> = Inr rs"
    and cl: "(if raqm_set_text_utf16 ext (shaperText ext (clearAssociatedOutlines r0))
        then chunkLoop (settingsWrap settings) (settingsLineBreak settings)
               (lineBreaksOf ext (clearAssociatedOutlines r0)) (graphemeBreaksOf ext (clearAssociatedOutlines r0))
               (length (fst (snd (collectText (collectSubChunks ext (clearAssociatedOutlines r0)) [] [] []))))
               (collectSubChunks ext (clearAssociatedOutlines r0)) 0 (rsResult rs)
        else Inr (rsResult rs)) = Inr result1"
    and gl: "glyphLoop ext glyphs 0 (markFirstAnchored result1) QPointF0 = Inr sh"
    and fin2: "finishShaping (settingsIsHorizontal settings)
          (length (fst (snd (collectText (collectSubChunks ext (clearAssociatedOutlines r0)) [] [] []))))
          (markMiddle ext (shaperText ext (clearAssociatedOutlines r0))
             (graphemeBreaksOf ext (clearAssociatedOutlines r0)) (fst sh))
          (rsResolved rs) = Inr (result, resolved, dummyIndex)"
    by blast
  have r0: "clearAssociatedOutlines r0 = r" by (simp add: r_def td)
  have walk: "resolveForLayout ext settings r initial = Inr rs"
    using rt unfolding resolveForLayout_def r0 initial_def n_def [symmetric]
    by (simp only: initialResolvedTransforms_alt)
  have tr: "resolved = (if dummyIndex < 0 then rsResolved rs
                        else insertAt (nat dummyIndex) CharTransformation0 (rsResolved rs))"
    and di: "dummyIndex < 0 \<or> 1 \<le> dummyIndex"
    using finishShaping_transforms [OF fin2] by simp_all
  have lr: "length (rsResolved rs) = n"
    using resolveTransforms_lengths(1) [OF rt] by (simp add: r0 n_def)
  have first: "resolved ! 0 = rsResolved rs ! 0"
  proof (cases "dummyIndex < 0")
    case True
    then show ?thesis using tr by simp
  next
    case False
    then have "0 < nat dummyIndex" using di by simp
    then have "take (nat dummyIndex) (rsResolved rs) \<noteq> []" using lr pos by auto
    then have "insertAt (nat dummyIndex) CharTransformation0 (rsResolved rs) ! 0 = rsResolved rs ! 0"
      by (simp add: insertAt_def nth_append)
    then show ?thesis using tr False by simp
  qed
  have origin: "xPos (resolved ! 0) = Some 0 \<and> yPos (resolved ! 0) = Some 0" if d: "declaresNoTransform r"
  proof -
    have "rsResolved rs ! 0 = initialResolvedTransforms n ! 0"
      using resolveTransforms_first(1) [OF rt] d by (simp add: r0 n_def)
    then show ?thesis using first pos by (simp add: initialResolvedTransforms_alt)
  qed
  show ?thesis
    unfolding Let_def r_def [symmetric] n_def [symmetric] initial_def [symmetric]
    using pos a1 a2 walk tr origin by auto
qed

theorem relayout_first_character_anchored_witness:
  "relayout demoBreakExternals demoSettings (demoState 2) =
     Inr (Shaped (shapedState demoBreakOutcome) (shapedResult demoBreakOutcome)
            (shapedTransforms demoBreakOutcome) (shapedDummyIndex demoBreakOutcome))
   \<and> anchored_chunk (shapedResult demoBreakOutcome ! 0)
   \<and> xPos (shapedTransforms demoBreakOutcome ! 0) = Some 0
   \<and> yPos (shapedTransforms demoBreakOutcome ! 0) = Some 0"
proof -
  have run: "relayout demoBreakExternals demoSettings (demoState 2) =
     Inr (Shaped (shapedState demoBreakOutcome) (shapedResult demoBreakOutcome)
            (shapedTransforms demoBreakOutcome) (shapedDummyIndex demoBreakOutcome))"
    by code_simp
  have keep: "\<forall>g cr t. anchored_chunk (fst (snd (loadGlyph demoBreakExternals g cr t))) = anchored_chunk cr"
    by (simp add: demoBreakExternals_def demoExternals_def)
  have plain: "declaresNoTransform (clearAssociatedOutlines (hd (textData (demoState 2))))"
    by code_simp
  show ?thesis
    using relayout_first_character_anchored [OF run keep] run plain
    by (simp add: Let_def)
qed


section \<open>Properties: failed glyphs\<close>




section \<open>Properties: empty text\<close>

text \<open>
  The members as \<open>relayout\<close> leaves them after its first lines; a tree none of whose
  nodes holds a code unit; and content that is empty: no code unit in the tree, no text in
  a sub-chunk and no collapsed text.
\<close>

definition clearedState :: "ShapeState \<Rightarrow> ShapeState" where
  "clearedState st =
     st\<lparr>textData := map clearAssociatedOutlines (textData st), initialTextPosition := QPointF0,
        shapeResult := [], cursorPos := [], logicalToVisualCursorPos := []\<rparr>"

fun outlinesEmpty :: "KoSvgTextContentElement \<Rightarrow> bool" where
  "outlinesEmpty (Element d cs) =
     (associatedOutline d = [] \<and> textDecorations d = [] \<and> (\<forall>c\<in>set cs. outlinesEmpty c))"

fun noCodeUnits :: "KoSvgTextContentElement \<Rightarrow> bool" where
  "noCodeUnits (Element d cs) = (numCharsAll d = 0 \<and> (\<forall>c\<in>set cs. noCodeUnits c))"

definition emptyContent :: "Externals \<Rightarrow> KoSvgTextContentElement \<Rightarrow> bool" where
  "emptyContent ext r =
     (collapsedText ext r = [] \<and> noCodeUnits r \<and> (\<forall>c\<in>set (collectSubChunks ext r). chunkText c = []))"

lemma outlinesEmpty_clear: "outlinesEmpty (clearAssociatedOutlines e)"
  by (induction e rule: clearAssociatedOutlines.induct) simp

lemma noCodeUnits_clear: "noCodeUnits (clearAssociatedOutlines e) = noCodeUnits e"
  by (induction e rule: clearAssociatedOutlines.induct) simp

lemma resolveTransforms_noCodeUnits:
  "noCodeUnits e \<Longrightarrow> resolveTransforms mergeIn tx h coll e wrapped tip st = Inr st"
  "\<forall>c\<in>set es. noCodeUnits c \<Longrightarrow> resolveTransformsChildren mergeIn tx h coll es tip st = Inr st"
proof (induction mergeIn tx h coll e wrapped tip st and mergeIn tx h coll es tip st
       rule: resolveTransforms_resolveTransformsChildren.induct)
  case (1 mergeIn tx h coll d cs wrapped tip st)
  have z: "numCharsAll d = 0" and ch: "\<forall>c\<in>set cs. noCodeUnits c" using "1.prems" by simp_all
  have st1: "(if textPath d then st
                 else (case fold (resolveLocalStep mergeIn tx wrapped coll (localTransformations d))
                              [rsCurrentIndex st..<rsCurrentIndex st + numCharsAll d] (rsResult st, rsResolved st, 0) of
                         (result, resolved, i) \<Rightarrow> st\<lparr>rsResult := result, rsResolved := resolved\<rparr>)) = st"
    by (simp add: z)
  have c: "resolveTransformsChildren mergeIn tx h coll cs (tip \<or> textPath d) st = Inr st"
    using "1.IH" [OF refl refl refl ch] st1 by (simp add: z)
  have p: "resolvePathLoop h (rsResult st) (rsCurrentIndex st) (rsCurrentIndex st) True (rsResolved st)
           = Inr (rsResolved st)"
    by (subst resolvePathLoop.simps) simp
  show ?case
    using c p by (cases "textPath d") (simp_all add: Let_def z)
next
  case (2 mergeIn tx h coll tip st)
  then show ?case by simp
next
  case (3 mergeIn tx h coll c cs tip st)
  then show ?case by simp
qed

lemma fontRunsCoverText_empty:
  assumes "fontRunsCoverText c" and "chunkText c = []"
  shows "\<forall>l\<in>set (fontRunLengths c). l \<le> 0"
proof -
  have nn: "\<And>l. l \<in> set (fontRunLengths c) \<Longrightarrow> 0 \<le> l" and z: "sum_list (fontRunLengths c) = 0"
    using assms by (simp_all add: fontRunsCoverText_def)
  then have "\<forall>l\<in>set (fontRunLengths c). l = 0"
    using sum_list_nonneg_eq_0_iff [of "fontRunLengths c"] by blast
  then show ?thesis by auto
qed

lemma fontRuns_nonpositive:
  "\<forall>l\<in>set lens. l \<le> 0 \<Longrightarrow> \<exists>start'. fontRuns rs ps lens start = Inr start'"
  by (induction lens arbitrary: start) auto

lemma chunkLoop_empty:
  "\<forall>c\<in>set chunks. chunkText c = [] \<and> (\<forall>l\<in>set (fontRunLengths c). l \<le> 0) \<Longrightarrow>
   chunkLoop w s lb gb ps chunks start result = Inr result"
proof (induction chunks arbitrary: start)
  case Nil
  then show ?case by simp
next
  case (Cons c chunks)
  have a: "chunkCharacters w s lb gb c start 0 result = Inr result"
    using Cons.prems by (subst chunkCharacters.simps) simp
  obtain start' where b: "fontRuns (length result) ps (fontRunLengths c) start = Inr start'"
    using fontRuns_nonpositive [of "fontRunLengths c" "length result" ps start] Cons.prems by auto
  show ?case using Cons.IH [of start'] Cons.prems a b by simp
qed

text \<open>
  Claim C8. On a tree with no node \<open>relayout\<close> returns at line 108. On a tree whose
  content is empty it returns at line 469: the tree walk and the chunk loop touch no entry,
  and the shaper has no glyph array for a text without code units. In both cases it
  returns without error, the stored array, the cursor positions and the logical-to-visual
  map are empty and every outline of the tree has been cleared. Two facts about services
  outside the sources are assumed: the font runs of each chunk cover its text (so an empty
  chunk has no run of positive length to walk), and \<open>raqm_get_glyphs\<close> returns a null
  pointer for a layout whose text is empty (the library allocates its glyph array only
  when there is a glyph to store).
\<close>

theorem relayout_empty_content:
  assumes "textData st = []
     \<or> (emptyContent ext (clearAssociatedOutlines (hd (textData st)))
        \<and> (\<forall>c\<in>set (collectSubChunks ext (clearAssociatedOutlines (hd (textData st)))). fontRunsCoverText c)
        \<and> raqm_get_glyphs ext [] = None)"
  shows "relayout ext settings st = Inr (Returned (clearedState st))
   \<and> shapeResult (clearedState st) = [] \<and> cursorPos (clearedState st) = []
   \<and> logicalToVisualCursorPos (clearedState st) = []
   \<and> (\<forall>e\<in>set (textData (clearedState st)). outlinesEmpty e)"
proof -
  have "relayout ext settings st = Inr (Returned (clearedState st))"
  proof (cases "textData st")
    case Nil
    then show ?thesis by (simp add: relayout_def clearedState_def)
  next
    case (Cons r0 others)
    define r where "r = clearAssociatedOutlines r0"
    have e: "collapsedText ext r = []" and nc: "noCodeUnits r"
      and tx: "\<forall>c\<in>set (collectSubChunks ext r). chunkText c = []"
      and fr: "\<forall>c\<in>set (collectSubChunks ext r). fontRunsCoverText c"
      and gl: "raqm_get_glyphs ext [] = None"
      using assms unfolding emptyContent_def Cons r_def by simp_all
    have ck: "\<forall>c\<in>set (collectSubChunks ext r). chunkText c = [] \<and> (\<forall>l\<in>set (fontRunLengths c). l \<le> 0)"
      using tx fr fontRunsCoverText_empty by blast
    have sh: "shaperText ext r = []" by (simp add: shaperText_def replaceHardBreaks_def e)
    show ?thesis
      unfolding relayout_def Let_def clearedState_def
      by (simp add: Cons r_def [symmetric] sh e resolveTransforms_noCodeUnits(1) [OF nc]
            chunkLoop_empty [OF ck] gl)
  qed
  then show ?thesis by (simp add: clearedState_def outlinesEmpty_clear)
qed

theorem relayout_empty_content_witness:
  "relayout (demoExternals [demoChunk []] None True) demoSettings ((demoState 0)\<lparr>textData := []\<rparr>)
     = Inr (Returned (clearedState ((demoState 0)\<lparr>textData := []\<rparr>)))
   \<and> relayout (demoExternals [demoChunk []] None True) demoSettings (demoState 0)
     = Inr (Returned (clearedState (demoState 0)))
   \<and> shapeResult (clearedState (demoState 0)) = []
   \<and> outlinesEmpty (hd (textData (clearedState (demoState 0))))"
proof -
  have t0: "textData ((demoState 0)\<lparr>textData := []\<rparr>) = []" by simp
  have ec: "emptyContent (demoExternals [demoChunk []] None True)
              (clearAssociatedOutlines (hd (textData (demoState 0))))"
    by code_simp
  have fr: "\<forall>c\<in>set (collectSubChunks (demoExternals [demoChunk []] None True)
                       (clearAssociatedOutlines (hd (textData (demoState 0))))). fontRunsCoverText c"
    by code_simp
  have gl: "raqm_get_glyphs (demoExternals [demoChunk []] None True) [] = None"
    by (simp add: demoExternals_def)
  have o: "outlinesEmpty (hd (textData (clearedState (demoState 0))))" by code_simp
  have ne: "textData (clearedState (demoState 0)) \<noteq> []" by (simp add: clearedState_def demoState_def)
  show ?thesis
    using relayout_empty_content [of "(demoState 0)\<lparr>textData := []\<rparr>" "demoExternals [demoChunk []] None True" demoSettings]
      relayout_empty_content [of "demoState 0" "demoExternals [demoChunk []] None True" demoSettings]
      t0 ec fr gl o
    by simp
qed

section \<open>Properties: anchoring\<close>

text \<open>
  An anchored chunk runs from an entry up to the next addressable entry flagged
  \<open>anchored_chunk\<close>; \<open>chunkAt result s\<close> is the chunk that begins at index \<open>s\<close>. Its extent is
  the minimum and the maximum, over its addressable characters, of the position and of the
  position plus the advance along the writing-mode axis, and \<open>anchoredPoint\<close> selects the
  start, the end or the midpoint of an extent by the anchor and the direction of a character.
\<close>

definition notChunkStart :: "CharacterResult \<Rightarrow> bool" where
  "notChunkStart c = (\<not> (addressable c \<and> anchored_chunk c))"

definition chunkAt :: "CharacterResult list \<Rightarrow> nat \<Rightarrow> CharacterResult list" where
  "chunkAt result s = (result ! s) # takeWhile notChunkStart (drop (Suc s) result)"

definition extentLo :: "bool \<Rightarrow> CharacterResult \<Rightarrow> qreal" where
  "extentLo isHorizontal c =
     qMin (axisPos isHorizontal c) (axisPos isHorizontal c + axisAdvance isHorizontal c)"

definition extentHi :: "bool \<Rightarrow> CharacterResult \<Rightarrow> qreal" where
  "extentHi isHorizontal c =
     qMax (axisPos isHorizontal c) (axisPos isHorizontal c + axisAdvance isHorizontal c)"

definition extentStart :: "bool \<Rightarrow> CharacterResult list \<Rightarrow> qreal" where
  "extentStart isHorizontal cs =
     (case filter addressable cs of
        [] \<Rightarrow> 0
      | c # others \<Rightarrow> foldl qMin (extentLo isHorizontal c) (map (extentLo isHorizontal) others))"

definition extentEnd :: "bool \<Rightarrow> CharacterResult list \<Rightarrow> qreal" where
  "extentEnd isHorizontal cs =
     (case filter addressable cs of
        [] \<Rightarrow> 0
      | c # others \<Rightarrow> foldl qMax (extentHi isHorizontal c) (map (extentHi isHorizontal) others))"

definition anchoredPoint :: "CharacterResult \<Rightarrow> qreal \<Rightarrow> qreal \<Rightarrow> qreal" where
  "anchoredPoint cr a b =
     (let rtl = (direction cr = DirectionRightToLeft)
      in if (anchor cr = AnchorStart \<and> \<not> rtl) \<or> (anchor cr = AnchorEnd \<and> rtl) then a
         else if (anchor cr = AnchorEnd \<and> \<not> rtl) \<or> (anchor cr = AnchorStart \<and> rtl) then b
         else (a + b) * Fin (1/2))"

definition finiteAxis :: "bool \<Rightarrow> CharacterResult \<Rightarrow> bool" where
  "finiteAxis isHorizontal c =
     (isFinite (axisPos isHorizontal c) \<and> isFinite (axisAdvance isHorizontal c))"

lemma anchorScan_after:
  assumes "start < i" and "i \<le> length r"
  shows "anchorScan r h start i a b =
     (i + length (takeWhile notChunkStart (drop i r)),
      foldl qMin a (map (extentLo h) (filter addressable (takeWhile notChunkStart (drop i r)))),
      foldl qMax b (map (extentHi h) (filter addressable (takeWhile notChunkStart (drop i r)))))"
  using assms
proof (induction r h start i a b rule: anchorScan.induct)
  case (1 r h start i a b)
  show ?case
  proof (cases "i < length r")
    case False
    then have "drop i r = []" by simp
    then show ?thesis using False by (subst anchorScan.simps) simp
  next
    case il: True
    have d: "drop i r = r ! i # drop (Suc i) r" using il by (simp add: Cons_nth_drop_Suc)
    have next1: "start < i + 1" "i + 1 \<le> length r" using "1.prems" il by simp_all
    show ?thesis
    proof (cases "addressable (r ! i)")
      case False
      then have ncs: "notChunkStart (r ! i)" by (simp add: notChunkStart_def)
      have "anchorScan r h start i a b = anchorScan r h start (i + 1) a b"
        using il False by (subst anchorScan.simps) simp
      also note "1.IH"(1) [OF il False next1]
      finally show ?thesis using ncs False by (simp add: d)
    next
      case A: True
      show ?thesis
      proof (cases "anchored_chunk (r ! i)")
        case True
        then have "\<not> notChunkStart (r ! i)" using A by (simp add: notChunkStart_def)
        moreover have "anchorScan r h start i a b = (i, a, b)"
          using il A True "1.prems" by (subst anchorScan.simps) simp
        ultimately show ?thesis by (simp add: d)
      next
        case False
        then have ncs: "notChunkStart (r ! i)" by (simp add: notChunkStart_def)
        have F: "\<not> (anchored_chunk (r ! i) \<and> start < i)" using False by simp
        have "anchorScan r h start i a b =
              anchorScan r h start (i + 1) (qMin a (extentLo h (r ! i))) (qMax b (extentHi h (r ! i)))"
          using il A False by (subst anchorScan.simps) (simp add: Let_def extentLo_def extentHi_def)
        also note "1.IH"(3) [OF il _ F refl refl False next1, unfolded extentLo_def [symmetric] extentHi_def [symmetric]]
        finally show ?thesis using ncs A by (simp add: d)
      qed
    qed
  qed
qed

lemma anchorScan_chunk:
  assumes "s < length r" and "addressable (r ! s)" and "anchored_chunk (r ! s)"
  shows "anchorScan r h s s 0 0 =
     (s + length (chunkAt r s), extentStart h (chunkAt r s), extentEnd h (chunkAt r s))"
proof -
  have "anchorScan r h s s 0 0 = anchorScan r h s (s + 1) (extentLo h (r ! s)) (extentHi h (r ! s))"
    using assms by (subst anchorScan.simps) (simp add: Let_def extentLo_def extentHi_def)
  also have "\<dots> = (s + 1 + length (takeWhile notChunkStart (drop (s + 1) r)),
      foldl qMin (extentLo h (r ! s)) (map (extentLo h) (filter addressable (takeWhile notChunkStart (drop (s + 1) r)))),
      foldl qMax (extentHi h (r ! s)) (map (extentHi h) (filter addressable (takeWhile notChunkStart (drop (s + 1) r)))))"
    using assms by (intro anchorScan_after) simp_all
  finally show ?thesis
    using assms by (simp add: chunkAt_def extentStart_def extentEnd_def)
qed

lemma anchorScan_end:
  assumes "start < length r"
  shows "fst (anchorScan r h start start a b) = Suc start + length (takeWhile notChunkStart (drop (Suc start) r))"
proof -
  have "\<exists>a' b'. anchorScan r h start start a b = anchorScan r h start (start + 1) a' b'"
    using assms by (subst anchorScan.simps) (auto simp: Let_def)
  then obtain a' b' where "anchorScan r h start start a b = anchorScan r h start (start + 1) a' b'"
    by blast
  then show ?thesis
    using anchorScan_after [of start "start + 1" r h a' b'] assms by simp
qed

definition shiftedBy :: "QPointF \<Rightarrow> CharacterResult \<Rightarrow> CharacterResult" where
  "shiftedBy p c = c\<lparr>finalPosition := padd (finalPosition c) p\<rparr>"

lemma shiftChunk_nth:
  assumes "b \<le> length r" and "j < length r"
  shows "shiftChunk p a b r ! j = (if a \<le> j \<and> j < b then shiftedBy p (r ! j) else r ! j)"
proof -
  have "length (fold (\<lambda>j r. r[j := (r ! j)\<lparr>finalPosition := padd (finalPosition (r ! j)) p\<rparr>]) js r0) = length r0"
    for js and r0 :: "CharacterResult list"
    by (induction js arbitrary: r0) simp_all
  note len = this
  have "b \<le> length r \<Longrightarrow>
        fold (\<lambda>j r. r[j := (r ! j)\<lparr>finalPosition := padd (finalPosition (r ! j)) p\<rparr>]) [a..<b] r ! j
        = (if a \<le> j \<and> j < b then shiftedBy p (r ! j) else r ! j)"
  proof (induction b)
    case 0
    then show ?case by simp
  next
    case (Suc b)
    show ?case
    proof (cases "a \<le> b")
      case False
      then show ?thesis by auto
    next
      case True
      then show ?thesis
        using Suc assms(2) by (auto simp: len nth_list_update shiftedBy_def)
    qed
  qed
  then show ?thesis using assms by (simp add: shiftChunk_def)
qed

lemma applyAnchoringFrom_frame:
  "length (applyAnchoringFrom h start r) = length r
   \<and> (\<forall>j. j < start \<longrightarrow> applyAnchoringFrom h start r ! j = r ! j)"
proof (induction h start r rule: applyAnchoringFrom.induct)
  case (1 h start r)
  show ?case
  proof (cases "start < length r")
    case False
    then show ?thesis by (subst (1 2) applyAnchoringFrom.simps) simp
  next
    case True
    define scan where "scan = anchorScan r h start start 0 0"
    define i where "i = fst scan"
    define shift where "shift = anchorShift (r ! start) h (fst (snd scan)) (snd (snd scan))"
    define shiftP where "shiftP = (if h then \<lparr>ptx = shift, pty = 0\<rparr> else \<lparr>ptx = 0, pty = shift\<rparr>)"
    have unf: "applyAnchoringFrom h start r = applyAnchoringFrom h i (shiftChunk shiftP start i r)"
      using True by (subst applyAnchoringFrom.simps) (simp add: Let_def scan_def i_def shift_def shiftP_def)
    have il: "i \<le> length r" and si: "start < i"
      using anchorScan_bounds [of start r h start 0 0] anchorScan_progress [OF True, of h 0 0] True
      by (simp_all add: i_def scan_def)
    note IH = "1.IH" [OF True scan_def i_def shift_def shiftP_def]
    show ?thesis
      unfolding unf using IH si il by (auto simp: shiftChunk_nth)
  qed
qed

lemma chunkAt_prefix:
  assumes "s < length r"
  shows "take (length (chunkAt r s)) (drop s r) = chunkAt r s"
proof -
  have "drop s r = r ! s # drop (Suc s) r" using assms by (simp add: Cons_nth_drop_Suc)
  then show ?thesis
    by (simp add: chunkAt_def takeWhile_eq_take [symmetric])
qed

lemma chunkAt_length: "s < length r \<Longrightarrow> s + length (chunkAt r s) \<le> length r"
  using length_takeWhile_le [of notChunkStart "drop (Suc s) r"] by (simp add: chunkAt_def)


lemma isFinite_Fin: "isFinite q \<Longrightarrow> \<exists>x. q = Fin x"
  by (cases q) simp_all

lemma shiftedBy_axis:
  fixes t :: rat
  defines "P h \<equiv> (if h then \<lparr>ptx = Fin t, pty = 0\<rparr> else \<lparr>ptx = 0, pty = Fin t\<rparr>)"
  shows "axisPos h (shiftedBy (P h) c) = axisPos h c + Fin t"
    and "axisAdvance h (shiftedBy (P h) c) = axisAdvance h c"
    and "addressable (shiftedBy (P h) c) = addressable c"
  by (simp_all add: P_def shiftedBy_def axisPos_def axisAdvance_def padd_def)

lemma extent_shifted:
  assumes "finiteAxis h c"
  shows "\<exists>x y. extentLo h c = Fin x \<and> extentHi h c = Fin y
           \<and> extentLo h (shiftedBy (if h then \<lparr>ptx = Fin t, pty = 0\<rparr> else \<lparr>ptx = 0, pty = Fin t\<rparr>) c) = Fin (x + t)
           \<and> extentHi h (shiftedBy (if h then \<lparr>ptx = Fin t, pty = 0\<rparr> else \<lparr>ptx = 0, pty = Fin t\<rparr>) c) = Fin (y + t)"
proof -
  obtain p d where p: "axisPos h c = Fin p" and d: "axisAdvance h c = Fin d"
    using assms isFinite_Fin unfolding finiteAxis_def by blast
  show ?thesis
    unfolding extentLo_def extentHi_def shiftedBy_axis p d
    by (simp add: qMin_def qMax_def plus_qreal_def less_qreal_def)
qed

lemma fold_extent_shifted:
  assumes "\<forall>c\<in>set cs. finiteAxis h c"
  shows "\<exists>x' y'. foldl qMin (Fin x) (map (extentLo h) cs) = Fin x'
          \<and> foldl qMax (Fin y) (map (extentHi h) cs) = Fin y'
          \<and> foldl qMin (Fin (x + t)) (map (extentLo h)
               (map (shiftedBy (if h then \<lparr>ptx = Fin t, pty = 0\<rparr> else \<lparr>ptx = 0, pty = Fin t\<rparr>)) cs)) = Fin (x' + t)
          \<and> foldl qMax (Fin (y + t)) (map (extentHi h)
               (map (shiftedBy (if h then \<lparr>ptx = Fin t, pty = 0\<rparr> else \<lparr>ptx = 0, pty = Fin t\<rparr>)) cs)) = Fin (y' + t)"
  using assms
proof (induction cs arbitrary: x y)
  case Nil
  then show ?case by simp
next
  case (Cons c cs)
  from Cons.prems have fc: "finiteAxis h c" and rest: "\<forall>c\<in>set cs. finiteAxis h c" by simp_all
  from extent_shifted [OF fc, of t] obtain u v where
    u: "extentLo h c = Fin u" and v: "extentHi h c = Fin v"
    and us: "extentLo h (shiftedBy (if h then \<lparr>ptx = Fin t, pty = 0\<rparr> else \<lparr>ptx = 0, pty = Fin t\<rparr>) c) = Fin (u + t)"
    and vs: "extentHi h (shiftedBy (if h then \<lparr>ptx = Fin t, pty = 0\<rparr> else \<lparr>ptx = 0, pty = Fin t\<rparr>) c) = Fin (v + t)"
    by blast
  have m1: "qMin (Fin x) (Fin u) = Fin (min x u)" "qMin (Fin (x + t)) (Fin (u + t)) = Fin (min x u + t)"
    and m2: "qMax (Fin y) (Fin v) = Fin (max y v)" "qMax (Fin (y + t)) (Fin (v + t)) = Fin (max y v + t)"
    by (auto simp: qMin_def qMax_def less_qreal_def min_def max_def)
  from Cons.IH [OF rest, of "min x u" "max y v"] show ?case
    by (simp add: u v us vs m1 m2)
qed

lemma anchoring_at_chunk_start:
  assumes s: "s < length r" and ad: "addressable (r ! s)" and an: "anchored_chunk (r ! s)"
    and fin: "\<forall>c\<in>set (chunkAt r s). finiteAxis h c"
  shows "anchoredPoint (r ! s)
           (extentStart h (take (length (chunkAt r s)) (drop s (applyAnchoringFrom h s r))))
           (extentEnd h (take (length (chunkAt r s)) (drop s (applyAnchoringFrom h s r))))
         = axisPos h (r ! s)"
proof -
  define tw where "tw = takeWhile notChunkStart (drop (Suc s) r)"
  define e where "e = s + length (chunkAt r s)"
  have ca: "chunkAt r s = r ! s # tw" by (simp add: chunkAt_def tw_def)
  have el: "e \<le> length r" using chunkAt_length [OF s] by (simp add: e_def)
  have se: "s < e" by (simp add: e_def ca)
  have f0: "finiteAxis h (r ! s)" and ftw: "\<forall>c\<in>set (filter addressable tw). finiteAxis h c"
    using fin by (simp_all add: ca)
  obtain p where p: "axisPos h (r ! s) = Fin p"
    using f0 isFinite_Fin unfolding finiteAxis_def by blast
  have scan: "anchorScan r h s s 0 0 = (e, extentStart h (chunkAt r s), extentEnd h (chunkAt r s))"
    using anchorScan_chunk [OF s ad an] by (simp add: e_def)
  have fa: "filter addressable (chunkAt r s) = r ! s # filter addressable tw"
    using ad by (simp add: ca)
  have shifted: "\<exists>x y. extentStart h (chunkAt r s) = Fin x \<and> extentEnd h (chunkAt r s) = Fin y
     \<and> extentStart h (map (shiftedBy (if h then \<lparr>ptx = Fin t, pty = 0\<rparr> else \<lparr>ptx = 0, pty = Fin t\<rparr>)) (chunkAt r s))
          = Fin (x + t)
     \<and> extentEnd h (map (shiftedBy (if h then \<lparr>ptx = Fin t, pty = 0\<rparr> else \<lparr>ptx = 0, pty = Fin t\<rparr>)) (chunkAt r s))
          = Fin (y + t)" for t
  proof -
    let ?sh = "shiftedBy (if h then \<lparr>ptx = Fin t, pty = 0\<rparr> else \<lparr>ptx = 0, pty = Fin t\<rparr>)"
    from extent_shifted [OF f0, of t] obtain u v where
      u: "extentLo h (r ! s) = Fin u" and v: "extentHi h (r ! s) = Fin v"
      and us: "extentLo h (?sh (r ! s)) = Fin (u + t)" and vs: "extentHi h (?sh (r ! s)) = Fin (v + t)"
      by blast
    from fold_extent_shifted [OF ftw, of u v t] obtain x' y' where
      a: "foldl qMin (Fin u) (map (extentLo h) (filter addressable tw)) = Fin x'"
      and b: "foldl qMax (Fin v) (map (extentHi h) (filter addressable tw)) = Fin y'"
      and a': "foldl qMin (Fin (u + t)) (map (extentLo h) (map ?sh (filter addressable tw))) = Fin (x' + t)"
      and b': "foldl qMax (Fin (v + t)) (map (extentHi h) (map ?sh (filter addressable tw))) = Fin (y' + t)"
      by blast
    have adr: "addressable \<circ> ?sh = addressable"
      by (rule ext) (simp add: shiftedBy_def)
    have fs: "filter addressable (map ?sh (chunkAt r s)) = ?sh (r ! s) # map ?sh (filter addressable tw)"
      using ad by (simp add: ca filter_map adr shiftedBy_def)
    show ?thesis
      unfolding extentStart_def extentEnd_def fa fs
      using a b a' b' by (simp add: u v us vs)
  qed
  from shifted [of 0] obtain x y where
    x: "extentStart h (chunkAt r s) = Fin x" and y: "extentEnd h (chunkAt r s) = Fin y" by blast
  define t where "t = (if (anchor (r ! s) = AnchorStart \<and> direction (r ! s) \<noteq> DirectionRightToLeft)
                          \<or> (anchor (r ! s) = AnchorEnd \<and> direction (r ! s) = DirectionRightToLeft) then p - x
                       else if (anchor (r ! s) = AnchorEnd \<and> direction (r ! s) \<noteq> DirectionRightToLeft)
                          \<or> (anchor (r ! s) = AnchorStart \<and> direction (r ! s) = DirectionRightToLeft) then p - y
                       else p - (x + y) * (1/2))"
  have sh: "anchorShift (r ! s) h (Fin x) (Fin y) = Fin t"
    by (simp add: anchorShift_def Let_def p t_def minus_qreal_def plus_qreal_def times_qreal_def)
  let ?P = "if h then \<lparr>ptx = Fin t, pty = 0\<rparr> else \<lparr>ptx = 0, pty = Fin t\<rparr>"
  have unf: "applyAnchoringFrom h s r = applyAnchoringFrom h e (shiftChunk ?P s e r)"
    using s sh scan [unfolded x y] by (subst applyAnchoringFrom.simps) (cases h; simp add: Let_def)
  have len: "length (applyAnchoringFrom h s r) = length r"
    using applyAnchoringFrom_frame [of h s r] by simp
  have nth: "applyAnchoringFrom h s r ! j = shiftedBy ?P (r ! j)" if "s \<le> j" "j < e" for j
  proof -
    have "applyAnchoringFrom h e (shiftChunk ?P s e r) ! j = shiftChunk ?P s e r ! j"
      using applyAnchoringFrom_frame [of h e "shiftChunk ?P s e r"] that by simp
    then show ?thesis unfolding unf using shiftChunk_nth [OF el, of j ?P s] that el by simp
  qed
  have tk: "take (length (chunkAt r s)) (drop s (applyAnchoringFrom h s r)) = map (shiftedBy ?P) (chunkAt r s)"
  proof (rule nth_equalityI)
    show "length (take (length (chunkAt r s)) (drop s (applyAnchoringFrom h s r)))
          = length (map (shiftedBy ?P) (chunkAt r s))"
      using el len by (simp add: e_def)
  next
    fix k assume "k < length (take (length (chunkAt r s)) (drop s (applyAnchoringFrom h s r)))"
    then have k: "k < length (chunkAt r s)" by simp
    then have ke: "s + k < e" by (simp add: e_def)
    have "chunkAt r s ! k = take (length (chunkAt r s)) (drop s r) ! k"
      by (simp only: chunkAt_prefix [OF s])
    also have "\<dots> = r ! (s + k)" using k el ke by simp
    finally have "chunkAt r s ! k = r ! (s + k)" .
    then show "take (length (chunkAt r s)) (drop s (applyAnchoringFrom h s r)) ! k
               = map (shiftedBy ?P) (chunkAt r s) ! k"
      using k ke nth [of "s + k"] el len by simp
  qed
  from shifted [of t] x y have
    x': "extentStart h (map (shiftedBy ?P) (chunkAt r s)) = Fin (x + t)"
    and y': "extentEnd h (map (shiftedBy ?P) (chunkAt r s)) = Fin (y + t)"
    by simp_all
  define A where "A \<longleftrightarrow> (anchor (r ! s) = AnchorStart \<and> direction (r ! s) \<noteq> DirectionRightToLeft)
                          \<or> (anchor (r ! s) = AnchorEnd \<and> direction (r ! s) = DirectionRightToLeft)"
  define B where "B \<longleftrightarrow> (anchor (r ! s) = AnchorEnd \<and> direction (r ! s) \<noteq> DirectionRightToLeft)
                          \<or> (anchor (r ! s) = AnchorStart \<and> direction (r ! s) = DirectionRightToLeft)"
  have tv: "t = (if A then p - x else if B then p - y else p - (x + y) * (1/2))"
    unfolding t_def A_def B_def by (rule refl)
  have ap: "anchoredPoint (r ! s) (Fin (x + t)) (Fin (y + t))
            = (if A then Fin (x + t) else if B then Fin (y + t) else (Fin (x + t) + Fin (y + t)) * Fin (1/2))"
    unfolding anchoredPoint_def Let_def A_def B_def by (rule refl)
  have "anchoredPoint (r ! s) (Fin (x + t)) (Fin (y + t)) = Fin p"
  proof (cases A)
    case True
    then show ?thesis unfolding ap by (simp add: tv)
  next
    case nA: False
    show ?thesis
    proof (cases B)
      case True
      then show ?thesis unfolding ap using nA by (simp add: tv)
    next
      case False
      have "(x + (p - (x + y) * (1/2)) + (y + (p - (x + y) * (1/2)))) * (1/2) = p"
        by (simp add: field_simps)
      then show ?thesis unfolding ap using nA False
        by (simp add: tv plus_qreal_def times_qreal_def)
    qed
  qed
  then show ?thesis
    unfolding tk x' y' p .
qed

lemma takeWhile_length_le:
  assumes "k < length xs" and "\<not> P (xs ! k)"
  shows "length (takeWhile P xs) \<le> k"
proof (rule ccontr)
  assume "\<not> length (takeWhile P xs) \<le> k"
  then have k: "k < length (takeWhile P xs)" by simp
  then have "takeWhile P xs ! k = xs ! k" by (rule takeWhile_nth)
  moreover have "takeWhile P xs ! k \<in> set (takeWhile P xs)" using k by simp
  ultimately have "P (xs ! k)" using set_takeWhileD by metis
  then show False using assms by simp
qed

lemma chunkAt_cong:
  assumes "length r' = length r" and "\<forall>j. s \<le> j \<longrightarrow> j < length r \<longrightarrow> r' ! j = r ! j" and "s < length r"
  shows "chunkAt r' s = chunkAt r s"
proof -
  have "drop (Suc s) r' = drop (Suc s) r"
    using assms by (intro nth_equalityI) simp_all
  then show ?thesis using assms by (simp add: chunkAt_def)
qed

lemma anchoring_reaches_chunk:
  assumes "start \<le> s" and "s < length r" and "addressable (r ! s)" and "anchored_chunk (r ! s)"
    and "\<forall>c\<in>set (chunkAt r s). finiteAxis h c"
  shows "anchoredPoint (r ! s)
           (extentStart h (take (length (chunkAt r s)) (drop s (applyAnchoringFrom h start r))))
           (extentEnd h (take (length (chunkAt r s)) (drop s (applyAnchoringFrom h start r))))
         = axisPos h (r ! s)"
  using assms
proof (induction "length r - start" arbitrary: start r rule: less_induct)
  case less
  show ?case
  proof (cases "start = s")
    case True
    then show ?thesis
      using anchoring_at_chunk_start [OF less.prems(2) less.prems(3) less.prems(4) less.prems(5)] by simp
  next
    case False
    then have lt: "start < s" using less.prems(1) by simp
    then have sl: "start < length r" using less.prems(2) by simp
    define e where "e = fst (anchorScan r h start start 0 0)"
    define shiftP where "shiftP = (if h then \<lparr>ptx = anchorShift (r ! start) h (fst (snd (anchorScan r h start start 0 0))) (snd (snd (anchorScan r h start start 0 0))), pty = 0\<rparr>
        else \<lparr>ptx = 0, pty = anchorShift (r ! start) h (fst (snd (anchorScan r h start start 0 0))) (snd (snd (anchorScan r h start start 0 0)))\<rparr>)"
    define r' where "r' = shiftChunk shiftP start e r"
    have unf: "applyAnchoringFrom h start r = applyAnchoringFrom h e r'"
      using sl unfolding r'_def shiftP_def e_def
      by (subst applyAnchoringFrom.simps) (simp add: Let_def)
    have ee: "e = Suc start + length (takeWhile notChunkStart (drop (Suc start) r))"
      unfolding e_def using anchorScan_end [of start r h 0 0] sl by simp
    have "length (takeWhile notChunkStart (drop (Suc start) r)) \<le> s - Suc start"
    proof (rule takeWhile_length_le)
      show "s - Suc start < length (drop (Suc start) r)" using lt less.prems(2) by simp
      show "\<not> notChunkStart (drop (Suc start) r ! (s - Suc start))"
        using lt less.prems(2,3,4) by (simp add: notChunkStart_def)
    qed
    then have es: "e \<le> s" using lt ee by simp
    have el: "e \<le> length r" using es less.prems(2) by simp
    have len: "length r' = length r" by (simp add: r'_def length_shiftChunk)
    have same: "\<forall>j. s \<le> j \<longrightarrow> j < length r \<longrightarrow> r' ! j = r ! j"
      using shiftChunk_nth [OF el, of _ shiftP start] es by (simp add: r'_def)
    have c: "chunkAt r' s = chunkAt r s"
      by (rule chunkAt_cong [OF len same less.prems(2)])
    have rs: "r' ! s = r ! s" using same less.prems(2) by simp
    have prog: "start < e"
      unfolding e_def using anchorScan_progress [of start r h 0 0] sl by simp
    have IH: "anchoredPoint (r' ! s)
           (extentStart h (take (length (chunkAt r' s)) (drop s (applyAnchoringFrom h e r'))))
           (extentEnd h (take (length (chunkAt r' s)) (drop s (applyAnchoringFrom h e r'))))
         = axisPos h (r' ! s)"
    proof (rule less.hyps)
      show "length r' - e < length r - start" using prog el sl len by simp
      show "e \<le> s" by (rule es)
      show "s < length r'" using less.prems(2) len by simp
      show "addressable (r' ! s)" using rs less.prems(3) by simp
      show "anchored_chunk (r' ! s)" using rs less.prems(4) by simp
      show "\<forall>c\<in>set (chunkAt r' s). finiteAxis h c" using c less.prems(5) by simp
    qed
    show ?thesis unfolding unf using IH unfolding c rs .
  qed
qed

lemma applyAnchoringFrom_flags:
  "j < length r \<Longrightarrow> notChunkStart (applyAnchoringFrom h start r ! j) = notChunkStart (r ! j)"
proof (induction "length r - start" arbitrary: start r rule: less_induct)
  case less
  show ?case
  proof (cases "start < length r")
    case False
    then show ?thesis by (subst applyAnchoringFrom.simps) simp
  next
    case True
    define e where "e = fst (anchorScan r h start start 0 0)"
    define shiftP where "shiftP = (if h then \<lparr>ptx = anchorShift (r ! start) h (fst (snd (anchorScan r h start start 0 0))) (snd (snd (anchorScan r h start start 0 0))), pty = 0\<rparr>
        else \<lparr>ptx = 0, pty = anchorShift (r ! start) h (fst (snd (anchorScan r h start start 0 0))) (snd (snd (anchorScan r h start start 0 0)))\<rparr>)"
    define r' where "r' = shiftChunk shiftP start e r"
    have unf: "applyAnchoringFrom h start r = applyAnchoringFrom h e r'"
      using True unfolding r'_def shiftP_def e_def
      by (subst applyAnchoringFrom.simps) (simp add: Let_def)
    have prog: "start < e"
      unfolding e_def using anchorScan_progress [of start r h 0 0] True by simp
    have el: "e \<le> length r"
      unfolding e_def using anchorScan_bounds [of start r h start 0 0] True by simp
    have len: "length r' = length r" by (simp add: r'_def)
    have "notChunkStart (applyAnchoringFrom h e r' ! j) = notChunkStart (r' ! j)"
      by (rule less.hyps) (use prog el True len less.prems in simp_all)
    moreover have "notChunkStart (r' ! j) = notChunkStart (r ! j)"
      unfolding r'_def using shiftChunk_nth [OF el less.prems, of shiftP start]
      by (simp add: notChunkStart_def shiftedBy_def)
    ultimately show ?thesis unfolding unf by simp
  qed
qed

lemma takeWhile_length_cong:
  "length xs = length ys \<Longrightarrow> \<forall>j. j < length xs \<longrightarrow> P (xs ! j) = P (ys ! j) \<Longrightarrow>
   length (takeWhile P xs) = length (takeWhile P ys)"
proof (induction xs ys rule: list_induct2)
  case Nil
  then show ?case by simp
next
  case (Cons x xs y ys)
  have h: "P x = P y" using Cons.prems [rule_format, of 0] by simp
  have t: "\<forall>j. j < length xs \<longrightarrow> P (xs ! j) = P (ys ! j)"
    using Cons.prems [rule_format, of "Suc j" for j] by simp
  show ?case using h Cons.IH [OF t] by simp
qed

lemma chunkAt_applyAnchoring:
  assumes "s < length result"
  shows "chunkAt (applyAnchoring result isHorizontal) s
         = take (length (chunkAt result s)) (drop s (applyAnchoring result isHorizontal))"
proof -
  define r' where "r' = applyAnchoring result isHorizontal"
  have len: "length r' = length result"
    using applyAnchoringFrom_frame [of isHorizontal 0 result] by (simp add: r'_def applyAnchoring_def)
  have fl: "notChunkStart (r' ! j) = notChunkStart (result ! j)" if "j < length result" for j
    unfolding r'_def applyAnchoring_def by (rule applyAnchoringFrom_flags [OF that])
  have "length (takeWhile notChunkStart (drop (Suc s) r')) = length (takeWhile notChunkStart (drop (Suc s) result))"
    by (rule takeWhile_length_cong) (use len fl in simp_all)
  then have "length (chunkAt r' s) = length (chunkAt result s)" by (simp add: chunkAt_def)
  then show ?thesis
    using chunkAt_prefix [of s r'] assms len unfolding r'_def by simp
qed

text \<open>
  For a chunk that begins at an addressable character flagged \<open>anchored_chunk\<close>, and whose
  positions and advances are finite, the pass does what is asked of it: after anchoring, the
  start, the end or the midpoint of the extent of the chunk is the position its first
  character had before. The numbers are exact here (\<open>qreal\<close> does not round), so the
  equality is that of exact arithmetic.
\<close>

lemma applyAnchoring_chunk_anchor_point:
  assumes "s < length result" and "addressable (result ! s)" and "anchored_chunk (result ! s)"
    and "\<forall>c\<in>set (chunkAt result s). finiteAxis isHorizontal c"
  shows "anchoredPoint (result ! s)
           (extentStart isHorizontal (chunkAt (applyAnchoring result isHorizontal) s))
           (extentEnd isHorizontal (chunkAt (applyAnchoring result isHorizontal) s))
         = axisPos isHorizontal (result ! s)"
proof -
  have "anchoredPoint (result ! s)
           (extentStart isHorizontal
              (take (length (chunkAt result s)) (drop s (applyAnchoring result isHorizontal))))
           (extentEnd isHorizontal
              (take (length (chunkAt result s)) (drop s (applyAnchoring result isHorizontal))))
         = axisPos isHorizontal (result ! s)"
    unfolding applyAnchoring_def
    using anchoring_reaches_chunk [of 0 s result isHorizontal] assms by simp
  then show ?thesis by (simp only: chunkAt_applyAnchoring [OF assms(1)])
qed

text \<open>
  The first chunk need not begin at an addressable character: \<open>relayout\<close> flags the first
  entry whatever it is, and a collapsed leading space is not addressable and keeps the
  position (0, 0). Here such an entry is followed by a character at 20 with advance 10,
  anchor middle, left to right, horizontal.
\<close>

definition anchorDemo :: "CharacterResult list" where
  "anchorDemo =
     [CharacterResult0\<lparr>addressable := False, anchored_chunk := True, anchor := AnchorMiddle\<rparr>,
      CharacterResult0\<lparr>finalPosition := \<lparr>ptx = Fin 20, pty = 0\<rparr>, advance := \<lparr>ptx = Fin 10, pty = 0\<rparr>,
                        anchor := AnchorMiddle\<rparr>]"

text \<open>
  Claim C2 fails on that array. The scan leaves \<open>a\<close> at its initial 0 (line 1522), because the
  branch that resets the extent (line 1534) is taken only for an addressable chunk start;
  so \<open>a = 0\<close>, \<open>b = 30\<close>, the shift is \<open>0 - 15\<close>, and the character moves to 5. The extent
  of the chunk after anchoring is 5 to 15, with midpoint 10, which is neither the position
  0 of the first entry nor the position 20 of the first addressable character.
\<close>

theorem applyAnchoring_leading_unaddressable:
  "map finalPosition (applyAnchoring anchorDemo True) = [\<lparr>ptx = Fin (- 15), pty = 0\<rparr>, \<lparr>ptx = Fin 5, pty = 0\<rparr>]
   \<and> chunkAt (applyAnchoring anchorDemo True) 0 = applyAnchoring anchorDemo True
   \<and> extentStart True (chunkAt (applyAnchoring anchorDemo True) 0) = Fin 5
   \<and> extentEnd True (chunkAt (applyAnchoring anchorDemo True) 0) = Fin 15
   \<and> anchoredPoint (anchorDemo ! 0) (Fin 5) (Fin 15) = Fin 10
   \<and> axisPos True (anchorDemo ! 0) = Fin 0
   \<and> axisPos True (anchorDemo ! 1) = Fin 20"
  by code_simp

section \<open>Properties: the divisor of \<open>applyTextLength\<close>\<close>

text \<open>
  The count \<open>n\<close> is the number of addressable characters of the node that no descendant has
  stretched, plus the number of children that had a \<open>textLength\<close>, minus one unless the
  glyphs are stretched too (lines 945 to 954). The quotient \<open>delta / n\<close> (line 957) is
  taken whatever \<open>n\<close> is; with \<open>n = 0\<close> it is an infinity or not-a-number.
\<close>

lemma textLengthDelta_zero_count: "\<not> isFinite (textLengthDelta d a b 0)"
proof -
  have "\<not> isFinite (x / Fin 0)" for x :: qreal
    by (cases x) (simp_all add: divide_qreal_def infOfSign_def)
  then show ?thesis by (simp add: textLengthDelta_def)
qed

text \<open>
  A node with \<open>textLength\<close> 100 whose only child has \<open>textLength\<close> 50, both adjusting the
  spacing only, over two characters of advance 10 at 0 and 10.
\<close>

definition nestedLengthData :: "qreal \<Rightarrow> ElementData" where
  "nestedLengthData len =
     \<lparr>localTransformations = [], textPath = False, numCharsAll = 2, textLengthIsAuto = False,
      textLengthCustomValue = len, lengthAdjust = LengthAdjustSpacing,
      associatedOutline = [], textDecorations = []\<rparr>"

definition nestedLengthTree :: KoSvgTextContentElement where
  "nestedLengthTree = Element (nestedLengthData (Fin 100)) [Element (nestedLengthData (Fin 50)) []]"

definition nestedLengthChars :: "CharacterResult list" where
  "nestedLengthChars =
     [CharacterResult0\<lparr>advance := \<lparr>ptx = Fin 10, pty = 0\<rparr>, visualIndex := 0, anchored_chunk := True\<rparr>,
      CharacterResult0\<lparr>finalPosition := \<lparr>ptx = Fin 10, pty = 0\<rparr>, advance := \<lparr>ptx = Fin 10, pty = 0\<rparr>,
                        visualIndex := 1\<rparr>]"

definition nestedLengthInner :: "CharacterResult list" where
  "nestedLengthInner = fst (projr (applyTextLength True (Element (nestedLengthData (Fin 50)) []) (nestedLengthChars, 0, 0)))"

text \<open>
  Claim C3 fails on that tree: nothing guards the divisor. The child stretches both
  characters (to 0 and 40) and marks them, so the node counts no character of its own, one
  child, minus one: \<open>n = 0\<close>. Its \<open>delta\<close> is 100 - 50, the quotient is plus infinity, and
  the second character is moved by it: the pass returns normally with a position that
  is not finite.
\<close>

theorem applyTextLength_zero_divisor:
  "map finalPosition nestedLengthInner = [\<lparr>ptx = Fin 0, pty = Fin 0\<rparr>, \<lparr>ptx = Fin 40, pty = Fin 0\<rparr>]
   \<and> map textLengthApplied nestedLengthInner = [True, True]
   \<and> textLengthDelta (nestedLengthData (Fin 100)) (Fin 0) (Fin 50) (0 + 1 - 1) = PInf
   \<and> \<not> isl (applyTextLength True nestedLengthTree (nestedLengthChars, 0, 0))
   \<and> map finalPosition (fst (projr (applyTextLength True nestedLengthTree (nestedLengthChars, 0, 0))))
       = [\<lparr>ptx = Fin 0, pty = Fin 0\<rparr>, \<lparr>ptx = PInf, pty = Fin 0\<rparr>]"
  by code_simp

section \<open>Properties: what the shaper receives\<close>

text \<open>
  The shaper enters \<open>relayout\<close> through \<open>raqm_set_text_utf16\<close> and \<open>raqm_get_glyphs\<close> only.
  Replacing these two by functions that give the same answers on one text leaves
  \<open>relayout\<close> as it is exactly when that text is the only one it hands to the shaper.
\<close>

lemma glyphLoop_cong:
  assumes "loadGlyph ext' = loadGlyph ext"
  shows "glyphLoop ext' gs i result t = glyphLoop ext gs i result t"
proof (induction gs arbitrary: i result t)
  case Nil
  show ?case by simp
next
  case (Cons g gs)
  obtain ok cr t' where l: "loadGlyph ext g (result ! cluster g) t = (ok, cr, t')"
    by (metis prod_cases3)
  show ?case
    using Cons [of "i + 1"] l by (simp add: assms)
qed

lemma markMiddle_cong:
  assumes "isSpace ext' = isSpace ext"
  shows "markMiddle ext' tx gb result = markMiddle ext tx gb result"
proof -
  have "markMiddleStep ext' tx gb = markMiddleStep ext tx gb"
    unfolding markMiddleStep_def by (simp only: assms)
  then show ?thesis by (simp only: markMiddle_def)
qed

lemma shaper_update_texts:
  "collapsedText (ext\<lparr>raqm_set_text_utf16 := s, raqm_get_glyphs := g\<rparr>) r = collapsedText ext r"
  "lineBreaksOf (ext\<lparr>raqm_set_text_utf16 := s, raqm_get_glyphs := g\<rparr>) r = lineBreaksOf ext r"
  "graphemeBreaksOf (ext\<lparr>raqm_set_text_utf16 := s, raqm_get_glyphs := g\<rparr>) r = graphemeBreaksOf ext r"
  "shaperText (ext\<lparr>raqm_set_text_utf16 := s, raqm_get_glyphs := g\<rparr>) r = shaperText ext r"
  by (simp_all add: collapsedText_def lineBreaksOf_def graphemeBreaksOf_def shaperText_def)

lemma relayout_shaper_cong:
  assumes "textData st = r0 # others"
    and "s (shaperText ext (clearAssociatedOutlines r0)) = raqm_set_text_utf16 ext (shaperText ext (clearAssociatedOutlines r0))"
    and "g (shaperText ext (clearAssociatedOutlines r0)) = raqm_get_glyphs ext (shaperText ext (clearAssociatedOutlines r0))"
  shows "relayout (ext\<lparr>raqm_set_text_utf16 := s, raqm_get_glyphs := g\<rparr>) settings st = relayout ext settings st"
proof -
  define ext' where "ext' = ext\<lparr>raqm_set_text_utf16 := s, raqm_get_glyphs := g\<rparr>"
  have gl: "glyphLoop ext' = glyphLoop ext"
    by (intro ext glyphLoop_cong) (simp add: ext'_def)
  have mm: "markMiddle ext' = markMiddle ext"
    by (intro ext markMiddle_cong) (simp add: ext'_def)
  have f: "collectSubChunks ext' = collectSubChunks ext" "collapseSpaces ext' = collapseSpaces ext"
    "mergeTransformation ext' = mergeTransformation ext"
    "raqm_set_text_utf16 ext' = s" "raqm_get_glyphs ext' = g"
    by (simp_all add: ext'_def)
  have t: "collapsedText ext' = collapsedText ext" "lineBreaksOf ext' = lineBreaksOf ext"
    "graphemeBreaksOf ext' = graphemeBreaksOf ext" "shaperText ext' = shaperText ext"
    by (intro ext, simp add: ext'_def shaper_update_texts)+
  show ?thesis
    unfolding ext'_def [symmetric] relayout_def
    by (simp only: gl mm f t) (simp add: assms Let_def cong: sum.case_cong option.case_cong)
qed

lemma relayout_Returned:
  assumes "relayout ext settings st = Inr (Returned s')" and "textData st = r0 # others"
  shows "raqm_get_glyphs ext (shaperText ext (clearAssociatedOutlines r0)) = None"
  using assms unfolding relayout_def Let_def
  by (auto split: list.splits sum.splits option.splits if_splits)

text \<open>
  Claim C4, as the code has it. On a tree that is not empty, the text \<open>relayout\<close> hands to
  the shaper is the collapsed text in which every code unit whose class is
  \<open>LINEBREAK_MUSTBREAK\<close> has been replaced by a space and every other code unit is kept,
  the classes being those computed for the collapsed text itself, before the replacement.
  It is the only text the shaper is asked about (any two shapers that agree on it give
  the same layout), and what the shaper answers on it decides whether \<open>relayout\<close> returns
  early or goes on.
\<close>

theorem relayout_shaper_text:
  assumes tree: "textData st = r0 # others"
  shows "let collapsed = collapsedText ext (clearAssociatedOutlines r0);
             received = map2 (\<lambda>c lb. if lb = LINEBREAK_MUSTBREAK then QChar_Space else c) collapsed
                          (map (set_linebreaks ext collapsed) [0..<length collapsed])
         in length received = length collapsed
          \<and> (\<forall>s g. s received = raqm_set_text_utf16 ext received \<and> g received = raqm_get_glyphs ext received \<longrightarrow>
                relayout (ext\<lparr>raqm_set_text_utf16 := s, raqm_get_glyphs := g\<rparr>) settings st
                  = relayout ext settings st)
          \<and> (\<forall>s'. relayout ext settings st = Inr (Returned s') \<longrightarrow> raqm_get_glyphs ext received = None)
          \<and> (\<forall>s' res tr d. relayout ext settings st = Inr (Shaped s' res tr d) \<longrightarrow>
                raqm_get_glyphs ext received \<noteq> None)"
proof -
  define r where "r = clearAssociatedOutlines r0"
  define collapsed where "collapsed = collapsedText ext r"
  define received where "received = map2 (\<lambda>c lb. if lb = LINEBREAK_MUSTBREAK then QChar_Space else c) collapsed
                          (map (set_linebreaks ext collapsed) [0..<length collapsed])"
  have rec: "shaperText ext r = received"
    by (simp add: shaperText_def lineBreaksOf_def replaceHardBreaks_map2 received_def collapsed_def)
  have len: "length received = length collapsed" by (simp add: received_def)
  have only: "relayout (ext\<lparr>raqm_set_text_utf16 := s, raqm_get_glyphs := g\<rparr>) settings st = relayout ext settings st"
    if "s received = raqm_set_text_utf16 ext received" and "g received = raqm_get_glyphs ext received" for s g
    using relayout_shaper_cong [OF tree, of s ext g settings] that by (simp add: r_def [symmetric] rec)
  have ret: "raqm_get_glyphs ext received = None" if "relayout ext settings st = Inr (Returned s')" for s'
    using relayout_Returned [OF that tree] by (simp add: r_def [symmetric] rec)
  have shp: "raqm_get_glyphs ext received \<noteq> None" if "relayout ext settings st = Inr (Shaped s' res tr d)" for s' res tr d
    using relayout_Shaped [OF that] tree by (auto simp: r_def [symmetric] rec)
  show ?thesis
    unfolding Let_def r_def [symmetric] collapsed_def [symmetric] received_def [symmetric]
    using len only ret shp by blast
qed

theorem relayout_shaper_text_witness:
  "relayout (demoBreakExternals\<lparr>raqm_set_text_utf16 := (\<lambda>tx. tx = [0x41, 0x20]),
                                 raqm_get_glyphs := (\<lambda>tx. if tx = [0x41, 0x20]
                                    then Some [\<lparr>glyphIndex = 0, cluster = 0\<rparr>, \<lparr>glyphIndex = 1, cluster = 1\<rparr>]
                                    else None)\<rparr>) demoSettings (demoState 2)
     = relayout demoBreakExternals demoSettings (demoState 2)
   \<and> relayout demoBreakExternals demoSettings (demoState 2) =
     Inr (Shaped (shapedState demoBreakOutcome) (shapedResult demoBreakOutcome)
            (shapedTransforms demoBreakOutcome) (shapedDummyIndex demoBreakOutcome))
   \<and> raqm_get_glyphs demoBreakExternals [0x41, 0x20] \<noteq> None"
proof -
  have tree: "textData (demoState 2) = demoElement 2 # []" by (simp add: demoState_def)
  have rec: "map2 (\<lambda>c lb. if lb = LINEBREAK_MUSTBREAK then QChar_Space else c)
               (collapsedText demoBreakExternals (clearAssociatedOutlines (demoElement 2)))
               (map (set_linebreaks demoBreakExternals (collapsedText demoBreakExternals (clearAssociatedOutlines (demoElement 2))))
                  [0..<length (collapsedText demoBreakExternals (clearAssociatedOutlines (demoElement 2)))])
             = [0x41, 0x20]"
    by code_simp
  have run: "relayout demoBreakExternals demoSettings (demoState 2) =
     Inr (Shaped (shapedState demoBreakOutcome) (shapedResult demoBreakOutcome)
            (shapedTransforms demoBreakOutcome) (shapedDummyIndex demoBreakOutcome))"
    by code_simp
  have s: "raqm_set_text_utf16 demoBreakExternals [0x41, 0x20]" and
    g: "raqm_get_glyphs demoBreakExternals [0x41, 0x20]
          = Some [\<lparr>glyphIndex = 0, cluster = 0\<rparr>, \<lparr>glyphIndex = 1, cluster = 1\<rparr>]"
    by (simp_all add: demoBreakExternals_def demoExternals_def)
  note T = relayout_shaper_text [OF tree, of demoBreakExternals demoSettings, unfolded Let_def rec]
  have a: "relayout (demoBreakExternals\<lparr>raqm_set_text_utf16 := (\<lambda>tx. tx = [0x41, 0x20]),
                                 raqm_get_glyphs := (\<lambda>tx. if tx = [0x41, 0x20]
                                    then Some [\<lparr>glyphIndex = 0, cluster = 0\<rparr>, \<lparr>glyphIndex = 1, cluster = 1\<rparr>]
                                    else None)\<rparr>) demoSettings (demoState 2)
     = relayout demoBreakExternals demoSettings (demoState 2)"
    using T s g by simp
  have b: "raqm_get_glyphs demoBreakExternals [0x41, 0x20] \<noteq> None"
    using T run by blast
  show ?thesis using a b run by simp
qed

text \<open>
  The rules LB4 and LB5 of UAX 14 on a text of letters, CR and LF: a break is mandatory
  after a line feed, and after a carriage return unless a line feed follows.
\<close>

definition demoMandatoryBreak :: "QChar list \<Rightarrow> nat \<Rightarrow> LineBreakClass" where
  "demoMandatoryBreak tx i =
     (if tx ! i = 0x0A then LINEBREAK_MUSTBREAK
      else if tx ! i = 0x0D
      then (if Suc i < length tx \<and> tx ! Suc i = 0x0A then LINEBREAK_NOBREAK else LINEBREAK_MUSTBREAK)
      else LINEBREAK_NOBREAK)"

definition demoCrLfExternals :: Externals where
  "demoCrLfExternals =
     (demoExternals [demoChunk [0x41, 0x0D, 0x0A]] None True)
       \<lparr>set_linebreaks := demoMandatoryBreak,
        raqm_get_glyphs := (\<lambda>tx. if tx = [0x41, 0x0D, 0x20]
           then Some [\<lparr>glyphIndex = 0, cluster = 0\<rparr>, \<lparr>glyphIndex = 1, cluster = 1\<rparr>,
                      \<lparr>glyphIndex = 2, cluster = 2\<rparr>]
           else None)\<rparr>"

definition demoCrLfOutcome :: RelayoutOutcome where
  "demoCrLfOutcome = projr (relayout demoCrLfExternals demoSettings (demoState 3))"

text \<open>
  The text the shaper receives is not free of mandatory-break characters. In the text
  A, CR, LF the carriage return is not classified as a mandatory break, since a line feed
  follows, and is handed on as it is, while the line feed becomes a space: the shaper
  (which here answers for this one text only) receives A, CR, space, in which the
  carriage return is a mandatory break.
\<close>

theorem relayout_shaper_receives_carriage_return:
  "relayout demoCrLfExternals demoSettings (demoState 3) =
     Inr (Shaped (shapedState demoCrLfOutcome) (shapedResult demoCrLfOutcome)
            (shapedTransforms demoCrLfOutcome) (shapedDummyIndex demoCrLfOutcome))
   \<and> shaperText demoCrLfExternals (clearAssociatedOutlines (demoElement 3)) = [0x41, 0x0D, 0x20]
   \<and> set_linebreaks demoCrLfExternals [0x41, 0x0D, 0x0A] 1 = LINEBREAK_NOBREAK
   \<and> set_linebreaks demoCrLfExternals [0x41, 0x0D, 0x20] 1 = LINEBREAK_MUSTBREAK"
  by code_simp

end
